theory Spec2Isabelle
  imports Complex_Main "HOL-Library.Sublist" "HOL-Library.Multiset"
begin

section \<open>Data model: the pandas frame held in \<open>data\<close>\<close>

text \<open>
  The script \<^verbatim>\<open>used-cars.py\<close> keeps one table, \<^verbatim>\<open>data\<close>, as read by
  \<^verbatim>\<open>pd.read_csv\<close>. A cell is missing (\<open>NaN\<close>), a number or a string. The cleaning
  pipeline only compares and moves the values it holds, so it is modelled for every type
  \<open>'n\<close> of numbers (the values of a numeric column, finite or infinite) and every type
  \<open>'c\<close> of characters (the code points of a Python \<^verbatim>\<open>str\<close>). The reporting stage
  computes with the numbers and is modelled on exact rationals. A column has a dtype:
  \<open>Numeric\<close> stands for the non-object dtypes (int64, float64), \<open>Object\<close> for a column
  of strings. The dtype is kept because the \<^verbatim>\<open>.str\<close> accessor raises on a non-object
  column.
\<close>

datatype ('c, 'n) cell = NaN | Num 'n | Str "'c list"

datatype dtype = Numeric | Object

datatype error =
    KeyError "string list"
  | AttributeError string
  | ValueError

record ('c, 'n) frame =
  schema :: "(string \<times> dtype) list"
  rows :: "('c, 'n) cell list list"

definition columns :: "('c, 'n) frame \<Rightarrow> string list" where
  "columns t = map fst (schema t)"

text \<open>Position of a column label, \<open>None\<close> when \<^verbatim>\<open>col in data.columns\<close> is false.\<close>

fun col_index :: "string \<Rightarrow> string list \<Rightarrow> nat option" where
  "col_index c [] = None"
| "col_index c (x # xs) = (if x = c then Some 0 else map_option Suc (col_index c xs))"

definition cell_at :: "('c, 'n) cell list \<Rightarrow> nat \<Rightarrow> ('c, 'n) cell" where
  "cell_at r j = (if j < length r then r ! j else NaN)"

definition isnull :: "('c, 'n) cell \<Rightarrow> bool" where
  "isnull c = (c = NaN)"

text \<open>
  A frame as \<^verbatim>\<open>read_csv\<close> builds it: distinct labels, every row as wide as the
  schema, numbers (or missing) in numeric columns, strings (or missing) in object columns.
\<close>

fun cell_ok :: "dtype \<Rightarrow> ('c, 'n) cell \<Rightarrow> bool" where
  "cell_ok Numeric (Str s) = False"
| "cell_ok Object (Num x) = False"
| "cell_ok d c = True"

definition wf_frame :: "('c, 'n) frame \<Rightarrow> bool" where
  "wf_frame t = (distinct (columns t) \<and>
     (\<forall>r \<in> set (rows t). list_all2 cell_ok (map snd (schema t)) r))"

section \<open>Cleaning pipeline (lines 20-52)\<close>

subsection \<open>Step 1: \<^verbatim>\<open>data.drop_duplicates()\<close>\<close>

text \<open>
  \<open>keep_first seen xs\<close> walks the rows in order and drops a row already seen
  (\<^verbatim>\<open>keep='first'\<close>, the default).
\<close>

fun keep_first :: "'a list \<Rightarrow> 'a list \<Rightarrow> 'a list" where
  "keep_first seen [] = []"
| "keep_first seen (x # xs) =
     (if x \<in> set seen then keep_first seen xs else x # keep_first (x # seen) xs)"

definition drop_duplicates :: "('c, 'n) frame \<Rightarrow> ('c, 'n) frame" where
  "drop_duplicates t = t\<lparr>rows := keep_first [] (rows t)\<rparr>"

subsection \<open>Step 2: \<^verbatim>\<open>data.isnull().sum().sum()\<close> and \<^verbatim>\<open>data.dropna()\<close>\<close>

text \<open>The inner \<^verbatim>\<open>sum()\<close> counts the missing cells of each column, the outer one adds the columns up.\<close>

definition isnull_sum :: "('c, 'n) frame \<Rightarrow> nat list" where
  "isnull_sum t =
     map (\<lambda>j. length (filter (\<lambda>r. isnull (cell_at r j)) (rows t))) [0..<length (schema t)]"

definition isnull_sum_sum :: "('c, 'n) frame \<Rightarrow> nat" where
  "isnull_sum_sum t = sum_list (isnull_sum t)"

definition dropna :: "('c, 'n) frame \<Rightarrow> ('c, 'n) frame" where
  "dropna t =
     t\<lparr>rows := filter (\<lambda>r. list_all (\<lambda>j. \<not> isnull (cell_at r j)) [0..<length (schema t)]) (rows t)\<rparr>"

subsection \<open>Step 3: \<^verbatim>\<open>pd.to_numeric(data[col], errors='coerce')\<close>\<close>

text \<open>
  The grammar of numbers that \<^verbatim>\<open>to_numeric\<close> accepts belongs to pandas; it is the
  parameter \<open>parse\<close>, which gives the number a string denotes (\<^verbatim>\<open>'inf'\<close> denotes
  one too). A string that does not parse becomes \<open>NaN\<close>, nothing is raised.
\<close>

fun to_numeric :: "('c list \<Rightarrow> 'n option) \<Rightarrow> ('c, 'n) cell \<Rightarrow> ('c, 'n) cell" where
  "to_numeric parse NaN = NaN"
| "to_numeric parse (Num x) = Num x"
| "to_numeric parse (Str s) = (case parse s of Some x \<Rightarrow> Num x | None \<Rightarrow> NaN)"

text \<open>\<^verbatim>\<open>data[col] = f(data[col])\<close> for a column that exists, at position \<open>j\<close>.\<close>

definition map_column ::
  "nat \<Rightarrow> dtype \<Rightarrow> (('c, 'n) cell \<Rightarrow> ('c, 'n) cell) \<Rightarrow> ('c, 'n) frame \<Rightarrow> ('c, 'n) frame" where
  "map_column j dt f t =
     t\<lparr>schema := (schema t)[j := (fst (schema t ! j), dt)],
       rows := map (\<lambda>r. r[j := f (cell_at r j)]) (rows t)\<rparr>"

definition numeric_columns :: "string list" where
  "numeric_columns = [''price'', ''mileage'', ''year'']"

definition coerce_column ::
  "('c list \<Rightarrow> 'n option) \<Rightarrow> ('c, 'n) frame \<Rightarrow> string \<Rightarrow> ('c, 'n) frame" where
  "coerce_column parse t col =
     (case col_index col (columns t) of
        None \<Rightarrow> t
      | Some j \<Rightarrow> map_column j Numeric (to_numeric parse) t)"

definition coerce_numeric :: "('c list \<Rightarrow> 'n option) \<Rightarrow> ('c, 'n) frame \<Rightarrow> ('c, 'n) frame" where
  "coerce_numeric parse t = foldl (coerce_column parse) t numeric_columns"

subsection \<open>Step 4: \<^verbatim>\<open>data.dropna(subset=numeric_columns)\<close>\<close>

text \<open>pandas raises \<^verbatim>\<open>KeyError\<close> with the labels of \<^verbatim>\<open>subset\<close> that are not columns.\<close>

definition subset_notnull :: "('c, 'n) frame \<Rightarrow> string list \<Rightarrow> ('c, 'n) cell list \<Rightarrow> bool" where
  "subset_notnull t labels r =
     list_all (\<lambda>c. case col_index c (columns t) of
                     None \<Rightarrow> True
                   | Some j \<Rightarrow> \<not> isnull (cell_at r j)) labels"

definition dropna_subset :: "string list \<Rightarrow> ('c, 'n) frame \<Rightarrow> error + ('c, 'n) frame" where
  "dropna_subset labels t =
     (let missing = filter (\<lambda>c. c \<notin> set (columns t)) labels in
      if missing \<noteq> [] then Inl (KeyError missing)
      else Inr (t\<lparr>rows := filter (subset_notnull t labels) (rows t)\<rparr>))"

subsection \<open>Step 5: \<^verbatim>\<open>data[col].str.strip().str.lower()\<close>\<close>

text \<open>
  Which characters are whitespace and what the lower-case form of a string is are tables
  of Python's Unicode database, not of the script: they are the parameters \<open>isspace\<close>
  (\<^verbatim>\<open>str.isspace\<close> of one character) and \<open>lower\<close> (\<^verbatim>\<open>str.lower\<close>).
  \<^verbatim>\<open>str.strip()\<close> removes the whitespace characters at both ends.
\<close>

definition strip :: "('c \<Rightarrow> bool) \<Rightarrow> 'c list \<Rightarrow> 'c list" where
  "strip isspace s = rev (dropWhile isspace (rev (dropWhile isspace s)))"

text \<open>An element of an object column that is not a string comes out of a \<^verbatim>\<open>.str\<close> method as \<open>NaN\<close>.\<close>

fun str_strip :: "('c \<Rightarrow> bool) \<Rightarrow> ('c, 'n) cell \<Rightarrow> ('c, 'n) cell" where
  "str_strip isspace (Str s) = Str (strip isspace s)"
| "str_strip isspace c = NaN"

fun str_lower :: "('c list \<Rightarrow> 'c list) \<Rightarrow> ('c, 'n) cell \<Rightarrow> ('c, 'n) cell" where
  "str_lower lower (Str s) = Str (lower s)"
| "str_lower lower c = NaN"

definition categorical_columns :: "string list" where
  "categorical_columns = [''model'', ''fuel_type'', ''transmission'', ''color'', ''city'']"

text \<open>
  The \<^verbatim>\<open>.str\<close> accessor raises \<^verbatim>\<open>AttributeError\<close> on a column whose dtype is not
  object; the loop stops there.
\<close>

fun normalize_categorical ::
  "('c \<Rightarrow> bool) \<Rightarrow> ('c list \<Rightarrow> 'c list) \<Rightarrow> string list \<Rightarrow> ('c, 'n) frame \<Rightarrow> error + ('c, 'n) frame" where
  "normalize_categorical isspace lower [] t = Inr t"
| "normalize_categorical isspace lower (col # cols) t =
     (case col_index col (columns t) of
        None \<Rightarrow> normalize_categorical isspace lower cols t
      | Some j \<Rightarrow>
          if snd (schema t ! j) = Numeric then Inl (AttributeError col)
          else normalize_categorical isspace lower cols
                 (map_column j Object (str_lower lower) (map_column j Object (str_strip isspace) t)))"

subsection \<open>The pipeline and the counts it reports\<close>

record report =
  duplicates_removed :: nat
  missing_count :: nat
  invalid_rows_removed :: nat

definition clean ::
  "('c \<Rightarrow> bool) \<Rightarrow> ('c list \<Rightarrow> 'c list) \<Rightarrow> ('c list \<Rightarrow> 'n option) \<Rightarrow> ('c, 'n) frame
     \<Rightarrow> error + (('c, 'n) frame \<times> report)" where
  "clean isspace lower parse t =
     (let initial_count = length (rows t);
          d1 = drop_duplicates t;
          dups = initial_count - length (rows d1);
          missing = isnull_sum_sum d1;
          d2 = dropna d1;
          d3 = coerce_numeric parse d2;
          before_invalid_removal = length (rows d3)
      in case dropna_subset numeric_columns d3 of
           Inl e \<Rightarrow> Inl e
         | Inr d4 \<Rightarrow>
             (case normalize_categorical isspace lower categorical_columns d4 of
                Inl e \<Rightarrow> Inl e
              | Inr d5 \<Rightarrow>
                  Inr (d5, \<lparr>duplicates_removed = dups, missing_count = missing,
                            invalid_rows_removed = before_invalid_removal - length (rows d4)\<rparr>)))"

section \<open>Reporting stage (lines 58-163)\<close>

text \<open>
  The reporting stage runs on the frame the cleaning pipeline leaves. Each of
  \<^verbatim>\<open>price\<close>, \<^verbatim>\<open>mileage\<close> and \<^verbatim>\<open>year\<close> has been through \<^verbatim>\<open>to_numeric\<close> by
  then, so the stage reads such a column as a series of numbers, \<open>None\<close> for a missing one.
  The stage is modelled for tables of finite numbers, held as exact rationals.
\<close>

definition column_values :: "nat \<Rightarrow> ('c, 'n) frame \<Rightarrow> ('c, 'n) cell list" where
  "column_values j t = map (\<lambda>r. cell_at r j) (rows t)"

fun number :: "('c, 'n) cell \<Rightarrow> 'n option" where
  "number (Num x) = Some x"
| "number c = None"

definition numeric_series :: "nat \<Rightarrow> ('c, 'n) frame \<Rightarrow> 'n option list" where
  "numeric_series j t = map number (column_values j t)"

text \<open>The values that are present: \<^verbatim>\<open>mean\<close>, \<^verbatim>\<open>min\<close>, \<^verbatim>\<open>max\<close>, \<^verbatim>\<open>value_counts\<close> and \<^verbatim>\<open>groupby\<close> skip the missing ones.\<close>

fun present :: "'a option list \<Rightarrow> 'a list" where
  "present [] = []"
| "present (None # xs) = present xs"
| "present (Some x # xs) = x # present xs"

subsection \<open>Statistics (lines 62-71)\<close>

text \<open>\<^verbatim>\<open>Series.mean()\<close>, \<^verbatim>\<open>min()\<close> and \<^verbatim>\<open>max()\<close> give \<open>NaN\<close> (here \<open>None\<close>) on a series with no value.\<close>

definition mean :: "rat list \<Rightarrow> rat option" where
  "mean xs = (if xs = [] then None else Some (sum_list xs / of_nat (length xs)))"

definition series_min :: "rat list \<Rightarrow> rat option" where
  "series_min xs = (if xs = [] then None else Some (fold min (tl xs) (hd xs)))"

definition series_max :: "rat list \<Rightarrow> rat option" where
  "series_max xs = (if xs = [] then None else Some (fold max (tl xs) (hd xs)))"

text \<open>\<^verbatim>\<open>int(x)\<close> truncates towards zero and raises \<^verbatim>\<open>ValueError\<close> on \<open>NaN\<close>.\<close>

definition py_int :: "rat option \<Rightarrow> error + int" where
  "py_int v = (case v of
                 None \<Rightarrow> Inl ValueError
               | Some x \<Rightarrow> Inr (if 0 \<le> x then \<lfloor>x\<rfloor> else \<lceil>x\<rceil>))"

text \<open>\<^verbatim>\<open>data[col]\<close> raises \<^verbatim>\<open>KeyError\<close> for a label that is not a column.\<close>

definition getitem :: "string \<Rightarrow> ('c, rat) frame \<Rightarrow> error + rat option list" where
  "getitem col t = (case col_index col (columns t) of
                      None \<Rightarrow> Inl (KeyError [col])
                    | Some j \<Rightarrow> Inr (numeric_series j t))"

record statistics =
  total_cars :: nat
  average_price_lakhs :: "rat option"
  average_mileage :: "rat option"
  oldest_car_year :: int
  newest_car_year :: int

text \<open>The entries of the dictionary are evaluated in the order they are written; the two averages are kept as numbers, their formatting to two decimals is not modelled.\<close>

definition compute_statistics :: "('c, rat) frame \<Rightarrow> error + statistics" where
  "compute_statistics t =
     (case getitem ''price'' t of Inl e \<Rightarrow> Inl e | Inr price \<Rightarrow>
      case getitem ''mileage'' t of Inl e \<Rightarrow> Inl e | Inr mileage \<Rightarrow>
      case getitem ''year'' t of Inl e \<Rightarrow> Inl e | Inr year \<Rightarrow>
      case py_int (series_min (present year)) of Inl e \<Rightarrow> Inl e | Inr oldest \<Rightarrow>
      case py_int (series_max (present year)) of Inl e \<Rightarrow> Inl e | Inr newest \<Rightarrow>
        Inr \<lparr>total_cars = length (rows t),
             average_price_lakhs = map_option (\<lambda>m. m / 100000) (mean (present price)),
             average_mileage = mean (present mileage),
             oldest_car_year = oldest,
             newest_car_year = newest\<rparr>)"

subsection \<open>Charts (lines 73-163)\<close>

text \<open>
  \<^verbatim>\<open>value_counts()\<close>: one entry per distinct value, in the order of first appearance,
  then sorted by descending count; the sort is stable, so equal counts keep that order.
\<close>

definition value_counts :: "'a list \<Rightarrow> ('a \<times> nat) list" where
  "value_counts vs =
     sort_key (\<lambda>p. - int (snd p)) (map (\<lambda>k. (k, count_list vs k)) (keep_first [] vs))"

definition notnull_values :: "nat \<Rightarrow> ('c, 'n) frame \<Rightarrow> ('c, 'n) cell list" where
  "notnull_values j t = filter (\<lambda>c. \<not> isnull c) (column_values j t)"

datatype 'c chart =
    Bar "(('c, rat) cell \<times> nat) list"
  | Pie "(('c, rat) cell \<times> nat) list"
  | Histogram "rat option list"
  | Scatter "(rat option \<times> rat option) list"
  | LineCount "(rat \<times> nat) list"
  | LineMean "(rat \<times> rat option) list"

text \<open>A chart block gives its chart (\<open>None\<close> when its column is absent and the block is skipped) and the frame \<^verbatim>\<open>data\<close> as the block leaves it.\<close>

definition top_counts_block :: "string \<Rightarrow> nat \<Rightarrow> ('c, rat) frame \<Rightarrow> 'c chart option \<times> ('c, rat) frame" where
  "top_counts_block col n t =
     (case col_index col (columns t) of
        None \<Rightarrow> (None, t)
      | Some j \<Rightarrow> (Some (Bar (take n (value_counts (notnull_values j t)))), t))"

definition pie_block :: "string \<Rightarrow> ('c, rat) frame \<Rightarrow> 'c chart option \<times> ('c, rat) frame" where
  "pie_block col t =
     (case col_index col (columns t) of
        None \<Rightarrow> (None, t)
      | Some j \<Rightarrow> (Some (Pie (value_counts (notnull_values j t))), t))"

definition model_block :: "('c, rat) frame \<Rightarrow> 'c chart option \<times> ('c, rat) frame" where
  "model_block = top_counts_block ''model'' 15"

definition fuel_block :: "('c, rat) frame \<Rightarrow> 'c chart option \<times> ('c, rat) frame" where
  "fuel_block = pie_block ''fuel_type''"

definition transmission_block :: "('c, rat) frame \<Rightarrow> 'c chart option \<times> ('c, rat) frame" where
  "transmission_block = pie_block ''transmission''"

definition color_block :: "('c, rat) frame \<Rightarrow> 'c chart option \<times> ('c, rat) frame" where
  "color_block = top_counts_block ''color'' 15"

definition city_block :: "('c, rat) frame \<Rightarrow> 'c chart option \<times> ('c, rat) frame" where
  "city_block = top_counts_block ''city'' 10"

text \<open>
  \<^verbatim>\<open>data['price_in_lakhs'] = data['price'] / 100_000\<close>: the assignment overwrites the
  column when the label exists and appends a new last column otherwise.
\<close>

fun to_cell :: "rat option \<Rightarrow> ('c, rat) cell" where
  "to_cell None = NaN"
| "to_cell (Some x) = Num x"

definition assign_column :: "string \<Rightarrow> rat option list \<Rightarrow> ('c, rat) frame \<Rightarrow> ('c, rat) frame" where
  "assign_column col vals t =
     (case col_index col (columns t) of
        Some j \<Rightarrow> t\<lparr>schema := (schema t)[j := (col, Numeric)],
                   rows := map (\<lambda>(r, v). r[j := to_cell v]) (zip (rows t) vals)\<rparr>
      | None \<Rightarrow> t\<lparr>schema := schema t @ [(col, Numeric)],
                 rows := map (\<lambda>(r, v). r @ [to_cell v]) (zip (rows t) vals)\<rparr>)"

definition price_in_lakhs :: "nat \<Rightarrow> ('c, rat) frame \<Rightarrow> rat option list" where
  "price_in_lakhs j t = map (map_option (\<lambda>p. p / 100000)) (numeric_series j t)"

definition add_price_in_lakhs :: "nat \<Rightarrow> ('c, rat) frame \<Rightarrow> ('c, rat) frame" where
  "add_price_in_lakhs j t = assign_column ''price_in_lakhs'' (price_in_lakhs j t) t"

definition price_block :: "('c, rat) frame \<Rightarrow> 'c chart option \<times> ('c, rat) frame" where
  "price_block t =
     (case col_index ''price'' (columns t) of
        None \<Rightarrow> (None, t)
      | Some j \<Rightarrow>
          let t' = add_price_in_lakhs j t
          in (Some (Histogram (price_in_lakhs j t)), t'))"

text \<open>A comparison with \<open>NaN\<close> is false, so a row without a price fails the outlier filter.\<close>

definition in_range :: "rat option \<Rightarrow> bool" where
  "in_range v = (case v of None \<Rightarrow> False | Some p \<Rightarrow> p \<le> 300 \<and> 1 \<le> p)"

definition mileage_block :: "('c, rat) frame \<Rightarrow> 'c chart option \<times> ('c, rat) frame" where
  "mileage_block t =
     (case col_index ''mileage'' (columns t) of
        None \<Rightarrow> (None, t)
      | Some jm \<Rightarrow>
         (case col_index ''price'' (columns t) of
            None \<Rightarrow> (None, t)
          | Some j \<Rightarrow>
              let t' = add_price_in_lakhs j t;
                  pts = zip (numeric_series jm t') (price_in_lakhs j t)
              in (Some (Scatter (filter (\<lambda>(m, p). in_range p) pts)), t')))"

text \<open>\<^verbatim>\<open>data['year'].value_counts().reset_index()\<close>, then \<^verbatim>\<open>sort_values('year')\<close>.\<close>

definition year_block :: "('c, rat) frame \<Rightarrow> 'c chart option \<times> ('c, rat) frame" where
  "year_block t =
     (case col_index ''year'' (columns t) of
        None \<Rightarrow> (None, t)
      | Some j \<Rightarrow>
          (Some (LineCount (sort_key fst (value_counts (present (numeric_series j t))))), t))"

text \<open>
  \<^verbatim>\<open>data.groupby('year')['price'].mean().reset_index()\<close>: the groups are the distinct
  years in ascending order (\<^verbatim>\<open>sort=True\<close>, the default), rows with no year are left out,
  and each group's mean skips missing prices. The means are then divided by 100000.
\<close>

definition groupby_mean :: "(rat option \<times> rat option) list \<Rightarrow> (rat \<times> rat option) list" where
  "groupby_mean kvs =
     map (\<lambda>k. (k, mean (present (map snd (filter (\<lambda>kv. fst kv = Some k) kvs)))))
         (sort_key (\<lambda>k. k) (keep_first [] (present (map fst kvs))))"

definition avg_price_block :: "('c, rat) frame \<Rightarrow> 'c chart option \<times> ('c, rat) frame" where
  "avg_price_block t =
     (case col_index ''year'' (columns t) of
        None \<Rightarrow> (None, t)
      | Some jy \<Rightarrow>
         (case col_index ''price'' (columns t) of
            None \<Rightarrow> (None, t)
          | Some j \<Rightarrow>
              let avg_price_year = groupby_mean (zip (numeric_series jy t) (numeric_series j t))
              in (Some (LineMean (map (\<lambda>(y, m). (y, map_option (\<lambda>p. p / 100000) m)) avg_price_year)), t)))"

text \<open>The nine blocks in the order of the script, each run on the frame the one before left.\<close>

definition chart_blocks :: "(('c, rat) frame \<Rightarrow> 'c chart option \<times> ('c, rat) frame) list" where
  "chart_blocks = [model_block, fuel_block, transmission_block, price_block, mileage_block,
                   year_block, color_block, avg_price_block, city_block]"

fun run_blocks :: "(('c, rat) frame \<Rightarrow> 'c chart option \<times> ('c, rat) frame) list \<Rightarrow> ('c, rat) frame \<Rightarrow> 'c chart option list \<times> ('c, rat) frame" where
  "run_blocks [] t = ([], t)"
| "run_blocks (b # bs) t =
     (case b t of (c, t') \<Rightarrow> (case run_blocks bs t' of (cs, t'') \<Rightarrow> (c # cs, t'')))"

definition reporting :: "('c, rat) frame \<Rightarrow> error + (statistics \<times> 'c chart option list \<times> ('c, rat) frame)" where
  "reporting t =
     (case compute_statistics t of
        Inl e \<Rightarrow> Inl e
      | Inr st \<Rightarrow> (case run_blocks chart_blocks t of (cs, t') \<Rightarrow> Inr (st, cs, t')))"

section \<open>Row-wise description of the column updates\<close>

text \<open>
  Steps 3 and 5 assign whole columns. Seen from one row they apply a function \<open>f\<close> to
  the cells under the labels \<open>ls\<close> and a new dtype to those columns; the lemmas on
  \<open>coerce_numeric\<close> and \<open>normalize_categorical\<close> below prove that the code does this.
\<close>

definition apply_row ::
  "string list \<Rightarrow> (('c, 'n) cell \<Rightarrow> ('c, 'n) cell) \<Rightarrow> string list \<Rightarrow> ('c, 'n) cell list
     \<Rightarrow> ('c, 'n) cell list" where
  "apply_row ls f cols r = map (\<lambda>(c, v). if c \<in> set ls then f v else v) (zip cols r)"

definition retype :: "string list \<Rightarrow> dtype \<Rightarrow> (string \<times> dtype) list \<Rightarrow> (string \<times> dtype) list" where
  "retype ls dt sch = map (\<lambda>(c, d). (c, if c \<in> set ls then dt else d)) sch"

definition coerce_row ::
  "('c list \<Rightarrow> 'n option) \<Rightarrow> string list \<Rightarrow> ('c, 'n) cell list \<Rightarrow> ('c, 'n) cell list" where
  "coerce_row parse cols r = apply_row numeric_columns (to_numeric parse) cols r"

definition normalize_row ::
  "('c \<Rightarrow> bool) \<Rightarrow> ('c list \<Rightarrow> 'c list) \<Rightarrow> string list \<Rightarrow> ('c, 'n) cell list
     \<Rightarrow> ('c, 'n) cell list" where
  "normalize_row isspace lower cols r =
     apply_row categorical_columns (\<lambda>v. str_lower lower (str_strip isspace v)) cols r"

text \<open>
  What the spec asks of a categorical value: no whitespace at either end, and entirely
  lower-case, that is, \<^verbatim>\<open>str.lower\<close> leaves it as it is.
\<close>

definition trimmed :: "('c \<Rightarrow> bool) \<Rightarrow> 'c list \<Rightarrow> bool" where
  "trimmed isspace s = (s = [] \<or> (\<not> isspace (hd s) \<and> \<not> isspace (last s)))"

definition lower_case :: "('c list \<Rightarrow> 'c list) \<Rightarrow> 'c list \<Rightarrow> bool" where
  "lower_case lower s = (lower s = s)"

text \<open>
  Two properties of \<^verbatim>\<open>str.lower\<close> that the normalised values rest on: lowering a
  lowered string changes nothing, and lowering puts no whitespace at an end of a string
  that had none there.
\<close>

definition lower_ok :: "('c \<Rightarrow> bool) \<Rightarrow> ('c list \<Rightarrow> 'c list) \<Rightarrow> bool" where
  "lower_ok isspace lower =
     ((\<forall>s. lower (lower s) = lower s) \<and> (\<forall>s. trimmed isspace s \<longrightarrow> trimmed isspace (lower s)))"

section \<open>The clean table\<close>

text \<open>
  What the later stages rely on after a successful run: rows as wide as the schema with
  no missing cell; \<^verbatim>\<open>price\<close>, \<^verbatim>\<open>mileage\<close> and \<^verbatim>\<open>year\<close> present as numeric columns
  of numbers; each categorical column that exists an object column of strings with the
  property \<open>P\<close> (for the normalised values: trimmed and lower-case).
\<close>

fun is_number :: "('c, 'n) cell \<Rightarrow> bool" where
  "is_number (Num x) = True"
| "is_number c = False"

fun is_str :: "('c list \<Rightarrow> bool) \<Rightarrow> ('c, 'n) cell \<Rightarrow> bool" where
  "is_str P (Str s) = P s"
| "is_str P c = False"

definition is_normal :: "('c \<Rightarrow> bool) \<Rightarrow> ('c list \<Rightarrow> 'c list) \<Rightarrow> 'c list \<Rightarrow> bool" where
  "is_normal isspace lower s = (trimmed isspace s \<and> lower_case lower s)"

definition is_clean :: "('c list \<Rightarrow> bool) \<Rightarrow> ('c, 'n) frame \<Rightarrow> bool" where
  "is_clean P t =
     ((\<forall>r \<in> set (rows t). length r = length (schema t) \<and> NaN \<notin> set r)
      \<and> (\<forall>l \<in> set numeric_columns.
            case col_index l (columns t) of
              None \<Rightarrow> False
            | Some j \<Rightarrow> snd (schema t ! j) = Numeric \<and> (\<forall>r \<in> set (rows t). is_number (r ! j)))
      \<and> (\<forall>l \<in> set categorical_columns.
            case col_index l (columns t) of
              None \<Rightarrow> True
            | Some j \<Rightarrow> snd (schema t ! j) = Object \<and> (\<forall>r \<in> set (rows t). is_str P (r ! j))))"

text \<open>A row holds, under one of the numeric labels, a string that does not parse as a number.\<close>

definition unparseable :: "('c list \<Rightarrow> 'n option) \<Rightarrow> string list \<Rightarrow> ('c, 'n) cell list \<Rightarrow> bool" where
  "unparseable parse cols r =
     list_ex (\<lambda>(c, v). c \<in> set numeric_columns \<and>
                (case v of Str s \<Rightarrow> parse s = None | _ \<Rightarrow> False)) (zip cols r)"

text \<open>
  Two frames hold the same data apart from the derived column \<^verbatim>\<open>price_in_lakhs\<close>: as
  many rows, and under every other label the same position, dtype and values.
\<close>

definition same_data :: "('c, rat) frame \<Rightarrow> ('c, rat) frame \<Rightarrow> bool" where
  "same_data t t' =
     (length (rows t') = length (rows t)
      \<and> (\<forall>r \<in> set (rows t). length r = length (schema t))
      \<and> (\<forall>r \<in> set (rows t'). length r = length (schema t'))
      \<and> (\<forall>c. c \<noteq> ''price_in_lakhs'' \<longrightarrow>
            col_index c (columns t') = col_index c (columns t)
            \<and> (\<forall>k. col_index c (columns t) = Some k \<longrightarrow>
                  snd (schema t' ! k) = snd (schema t ! k)
                  \<and> column_values k t' = column_values k t)))"

section \<open>Example frames\<close>

text \<open>
  The examples are strings of \<^typ>\<open>char\<close>, read as the code points 0 to 255 (Latin-1). On
  these \<^verbatim>\<open>str.isspace\<close> holds of 9 to 13, 28 to 32, 133 (next line) and 160 (no-break
  space), and \<^verbatim>\<open>str.lower\<close> adds 32 to the capital letters: 65 to 90 and 192 to 222,
  the multiplication sign 215 apart.
\<close>

definition latin1_isspace :: "char \<Rightarrow> bool" where
  "latin1_isspace c =
     (let n = (of_char c :: nat) in (9 \<le> n \<and> n \<le> 13) \<or> (28 \<le> n \<and> n \<le> 32) \<or> n = 133 \<or> n = 160)"

definition latin1_isupper :: "char \<Rightarrow> bool" where
  "latin1_isupper c =
     (let n = (of_char c :: nat) in (65 \<le> n \<and> n \<le> 90) \<or> (192 \<le> n \<and> n \<le> 222 \<and> n \<noteq> 215))"

definition latin1_lower_char :: "char \<Rightarrow> char" where
  "latin1_lower_char c = (if latin1_isupper c then char_of (of_char c + (32::nat)) else c)"

definition latin1_lower :: "string \<Rightarrow> string" where
  "latin1_lower s = map latin1_lower_char s"

text \<open>
  A number grammar for the examples: unsigned decimal numerals, which \<^verbatim>\<open>to_numeric\<close>
  reads with their usual value; no other string of the examples parses.
\<close>

definition is_digit :: "char \<Rightarrow> bool" where
  "is_digit c = (let n = (of_char c :: nat) in 48 \<le> n \<and> n \<le> 57)"

definition parse_decimal :: "string \<Rightarrow> rat option" where
  "parse_decimal s =
     (if s \<noteq> [] \<and> list_all is_digit s
      then Some (of_nat (foldl (\<lambda>n c. 10 * n + (of_char c - 48)) 0 s))
      else None)"

text \<open>
  Five listings: the second repeats the first, the third has a year that is not a
  number, the fourth has two empty cells, the fifth differs from the first in case and
  spacing only.
\<close>

definition listings :: "(char, rat) frame" where
  "listings =
     \<lparr>schema = [(''price'', Numeric), (''mileage'', Numeric), (''year'', Object),
                (''model'', Object), (''city'', Object)],
      rows = [[Num 100000, Num 12, Str ''2015'', Str '' Civic '', Str ''Lahore''],
              [Num 100000, Num 12, Str ''2015'', Str '' Civic '', Str ''Lahore''],
              [Num 200000, Num 10, Str ''abc'', Str ''City'', Str ''Karachi''],
              [Num 300000, NaN, Str ''2018'', NaN, Str ''Karachi''],
              [Num 100000, Num 12, Str ''2015'', Str ''civic'', Str ''lahore'']]\<rparr>"

definition listings_clean :: "(char, rat) frame" where
  "listings_clean =
     \<lparr>schema = [(''price'', Numeric), (''mileage'', Numeric), (''year'', Numeric),
                (''model'', Object), (''city'', Object)],
      rows = [[Num 100000, Num 12, Num 2015, Str ''civic'', Str ''lahore''],
              [Num 100000, Num 12, Num 2015, Str ''civic'', Str ''lahore'']]\<rparr>"

text \<open>A table without a \<^verbatim>\<open>price\<close> column.\<close>

definition no_price :: "(char, rat) frame" where
  "no_price =
     \<lparr>schema = [(''mileage'', Numeric), (''year'', Numeric), (''model'', Object)],
      rows = [[Num 12, Num 2015, Str ''Civic'']]\<rparr>"

text \<open>Two listings; the first has no mileage and a year that is not a number.\<close>

definition abc_missing :: "(char, rat) frame" where
  "abc_missing =
     \<lparr>schema = [(''price'', Numeric), (''mileage'', Numeric), (''year'', Object)],
      rows = [[Num 100000, NaN, Str ''abc''],
              [Num 200000, Num 10, Str ''2016'']]\<rparr>"

definition abc_missing_clean :: "(char, rat) frame" where
  "abc_missing_clean =
     \<lparr>schema = [(''price'', Numeric), (''mileage'', Numeric), (''year'', Numeric)],
      rows = [[Num 200000, Num 10, Num 2016]]\<rparr>"

text \<open>
  A number type with the two infinities of a float, and a grammar that reads them:
  \<^verbatim>\<open>to_numeric\<close> gives the float \<^verbatim>\<open>inf\<close> for the string \<^verbatim>\<open>inf\<close>, which is not a missing
  value. One listing whose year is that string.
\<close>

datatype xnum = Finite rat | PosInf | NegInf

definition parse_xnum :: "string \<Rightarrow> xnum option" where
  "parse_xnum s =
     (if s = ''inf'' then Some PosInf
      else if s = ''-inf'' then Some NegInf
      else map_option Finite (parse_decimal s))"

definition inf_year :: "(char, xnum) frame" where
  "inf_year =
     \<lparr>schema = [(''price'', Numeric), (''mileage'', Numeric), (''year'', Object)],
      rows = [[Num (Finite 100000), Num (Finite 12), Str ''inf'']]\<rparr>"

definition inf_year_clean :: "(char, xnum) frame" where
  "inf_year_clean =
     \<lparr>schema = [(''price'', Numeric), (''mileage'', Numeric), (''year'', Numeric)],
      rows = [[Num (Finite 100000), Num (Finite 12), Num PosInf]]\<rparr>"

text \<open>Three rows \<open>[A, A, B]\<close>.\<close>

definition aab :: "(char, rat) frame" where
  "aab =
     \<lparr>schema = [(''price'', Numeric), (''mileage'', Numeric), (''year'', Numeric)],
      rows = [[Num 100000, Num 12, Num 2015],
              [Num 100000, Num 12, Num 2015],
              [Num 250000, Num 9, Num 2018]]\<rparr>"

text \<open>A file with a header line and no listing: \<^verbatim>\<open>read_csv\<close> gives object columns and no row.\<close>

definition header_only :: "(char, rat) frame" where
  "header_only =
     \<lparr>schema = [(''price'', Object), (''mileage'', Object), (''year'', Object), (''model'', Object)],
      rows = []\<rparr>"

definition header_only_clean :: "(char, rat) frame" where
  "header_only_clean =
     \<lparr>schema = [(''price'', Numeric), (''mileage'', Numeric), (''year'', Numeric), (''model'', Object)],
      rows = []\<rparr>"

text \<open>Three clean listings whose years are not in ascending order.\<close>

definition two_years :: "(char, rat) frame" where
  "two_years =
     \<lparr>schema = [(''price'', Numeric), (''mileage'', Numeric), (''year'', Numeric)],
      rows = [[Num 250000, Num 9, Num 2018],
              [Num 100000, Num 12, Num 2015],
              [Num 300000, Num 10, Num 2018]]\<rparr>"

section \<open>Lemmas on labels, rows and column updates\<close>

lemma set_keep_first: "set (keep_first seen xs) = set xs - set seen"
  by (induction xs arbitrary: seen) auto

lemma distinct_keep_first: "distinct (keep_first seen xs)"
  by (induction xs arbitrary: seen) (auto simp: set_keep_first)

lemma subseq_keep_first: "subseq (keep_first seen xs) xs"
  by (induction xs arbitrary: seen) auto

lemma keep_first_snoc:
  "keep_first seen (xs @ [x]) =
     (if x \<in> set seen \<union> set xs then keep_first seen xs else keep_first seen xs @ [x])"
  by (induction xs arbitrary: seen) auto

lemma keep_first_positions:
  "keep_first [] xs = map (\<lambda>i. xs ! i) (filter (\<lambda>i. \<forall>j<i. xs ! j \<noteq> xs ! i) [0..<length xs])"
proof (induction xs rule: rev_induct)
  case Nil
  then show ?case by simp
next
  case (snoc x xs)
  let ?n = "length xs"
  let ?P = "\<lambda>ys i. \<forall>j<i. ys ! j \<noteq> ys ! i"
  have old: "filter (?P (xs @ [x])) [0..<?n] = filter (?P xs) [0..<?n]"
    by (rule filter_cong) (auto simp: nth_append)
  have oldmap: "map (\<lambda>i. (xs @ [x]) ! i) (filter (?P xs) [0..<?n]) = map (\<lambda>i. xs ! i) (filter (?P xs) [0..<?n])"
    by (rule map_cong) (auto simp: nth_append)
  have last: "?P (xs @ [x]) ?n \<longleftrightarrow> x \<notin> set xs"
    by (auto simp: nth_append in_set_conv_nth)
  show ?case
    using snoc.IH old oldmap last by (simp add: keep_first_snoc)
qed


lemma col_index_Some: "col_index c xs = Some j \<Longrightarrow> j < length xs \<and> xs ! j = c"
  by (induction xs arbitrary: j) (auto split: if_splits)

lemma col_index_None: "(col_index c xs = None) = (c \<notin> set xs)"
  by (induction xs) auto

lemma col_index_in: "c \<in> set xs \<Longrightarrow> \<exists>j. col_index c xs = Some j"
  using col_index_None [of c xs] by (cases "col_index c xs") auto

lemma map_fst_retag: "map fst (sch[j := (fst (sch ! j), dt)]) = map fst sch"
proof (rule nth_equalityI)
  show "length (map fst (sch[j := (fst (sch ! j), dt)])) = length (map fst sch)" by simp
next
  fix i assume "i < length (map fst (sch[j := (fst (sch ! j), dt)]))"
  then have "i < length sch" by simp
  then show "map fst (sch[j := (fst (sch ! j), dt)]) ! i = map fst sch ! i"
    by (cases "i = j") (simp_all add: nth_list_update)
qed

lemma columns_map_column: "columns (map_column j dt f t) = columns t"
  by (simp add: columns_def map_column_def map_fst_retag)

lemma rows_map_column: "rows (map_column j dt f t) = map (\<lambda>r. r[j := f (cell_at r j)]) (rows t)"
  by (simp add: map_column_def)

lemma schema_map_column: "schema (map_column j dt f t) = (schema t)[j := (fst (schema t ! j), dt)]"
  by (simp add: map_column_def)

lemma length_apply_row: "length r = length cols \<Longrightarrow> length (apply_row ls f cols r) = length cols"
  by (simp add: apply_row_def)

lemma nth_apply_row:
  "length r = length cols \<Longrightarrow> k < length cols \<Longrightarrow>
   apply_row ls f cols r ! k = (if cols ! k \<in> set ls then f (r ! k) else r ! k)"
  by (simp add: apply_row_def)

lemma apply_row_Nil: "length r = length cols \<Longrightarrow> apply_row [] f cols r = r"
  by (simp add: apply_row_def list_eq_iff_nth_eq)

lemma apply_row_absent: "l \<notin> set cols \<Longrightarrow> apply_row (l # ls) f cols r = apply_row ls f cols r"
  unfolding apply_row_def by (rule map_cong) (auto dest: set_zip_leftD)

lemma apply_row_step:
  assumes "distinct cols" "length r = length cols" "col_index l cols = Some j" "l \<notin> set ls"
  shows "apply_row ls f cols (r[j := f (cell_at r j)]) = apply_row (l # ls) f cols r"
proof -
  from assms(3) have j: "j < length cols" "cols ! j = l"
    using col_index_Some by blast+
  have other: "cols ! k \<noteq> l" if "k < length cols" "k \<noteq> j" for k
    using that j assms(1) by (auto simp: nth_eq_iff_index_eq)
  show ?thesis
  proof (rule nth_equalityI)
    show "length (apply_row ls f cols (r[j := f (cell_at r j)])) = length (apply_row (l # ls) f cols r)"
      using assms(2) by (simp add: apply_row_def)
  next
    fix k assume "k < length (apply_row ls f cols (r[j := f (cell_at r j)]))"
    then have k: "k < length cols" using assms(2) by (simp add: apply_row_def)
    show "apply_row ls f cols (r[j := f (cell_at r j)]) ! k = apply_row (l # ls) f cols r ! k"
    proof (cases "k = j")
      case True
      then show ?thesis using j k assms(2,4) by (simp add: nth_apply_row cell_at_def)
    next
      case False
      then show ?thesis using other [OF k False] k assms(2) by (simp add: nth_apply_row)
    qed
  qed
qed

lemma retype_Nil: "retype [] dt sch = sch"
  by (simp add: retype_def list_eq_iff_nth_eq split: prod.splits)

lemma map_fst_retype: "map fst (retype ls dt sch) = map fst sch"
  by (simp add: retype_def list_eq_iff_nth_eq split: prod.splits)

lemma retype_absent: "l \<notin> set (map fst sch) \<Longrightarrow> retype (l # ls) dt sch = retype ls dt sch"
  unfolding retype_def by (rule map_cong) force+

lemma retype_step:
  assumes "distinct (map fst sch)" "col_index l (map fst sch) = Some j"
  shows "retype ls dt (sch[j := (fst (sch ! j), dt)]) = retype (l # ls) dt sch"
proof -
  from assms(2) have j: "j < length sch" "fst (sch ! j) = l"
    using col_index_Some [of l "map fst sch" j] by auto
  have other: "fst (sch ! k) \<noteq> l" if "k < length sch" "k \<noteq> j" for k
    using that j assms(1) nth_eq_iff_index_eq [of "map fst sch" k j] by auto
  show ?thesis
  proof (rule nth_equalityI)
    show "length (retype ls dt (sch[j := (fst (sch ! j), dt)])) = length (retype (l # ls) dt sch)"
      by (simp add: retype_def)
  next
    fix k assume "k < length (retype ls dt (sch[j := (fst (sch ! j), dt)]))"
    then have k: "k < length sch" by (simp add: retype_def)
    show "retype ls dt (sch[j := (fst (sch ! j), dt)]) ! k = retype (l # ls) dt sch ! k"
    proof (cases "k = j")
      case True
      then show ?thesis using j k by (cases "sch ! j") (auto simp: retype_def)
    next
      case False
      then show ?thesis using other [OF k False] k
        by (cases "sch ! k") (auto simp: retype_def)
    qed
  qed
qed

lemma columns_coerce_column: "columns (coerce_column parse t l) = columns t"
  by (simp add: coerce_column_def columns_map_column split: option.splits)

lemma rows_coerce_column:
  "rows (coerce_column parse t l) =
     (case col_index l (columns t) of None \<Rightarrow> rows t
      | Some j \<Rightarrow> map (\<lambda>r. r[j := to_numeric parse (cell_at r j)]) (rows t))"
  by (simp add: coerce_column_def rows_map_column split: option.splits)

lemma schema_coerce_column:
  "schema (coerce_column parse t l) =
     (case col_index l (columns t) of None \<Rightarrow> schema t
      | Some j \<Rightarrow> (schema t)[j := (fst (schema t ! j), Numeric)])"
  by (simp add: coerce_column_def schema_map_column split: option.splits)

lemma rows_foldl_coerce:
  "distinct ls \<Longrightarrow> distinct (columns t) \<Longrightarrow> \<forall>r \<in> set (rows t). length r = length (columns t) \<Longrightarrow>
   rows (foldl (coerce_column parse) t ls) = map (apply_row ls (to_numeric parse) (columns t)) (rows t)"
proof (induction ls arbitrary: t)
  case Nil
  then show ?case by (simp add: apply_row_Nil map_idI)
next
  case (Cons l ls)
  let ?t1 = "coerce_column parse t l"
  have c1: "columns ?t1 = columns t" by (rule columns_coerce_column)
  show ?case
  proof (cases "col_index l (columns t)")
    case None
    then have r1: "rows ?t1 = rows t" by (simp add: rows_coerce_column)
    have "rows (foldl (coerce_column parse) ?t1 ls) = map (apply_row ls (to_numeric parse) (columns t)) (rows t)"
      using Cons.IH [of ?t1] Cons.prems c1 r1 by simp
    moreover have "l \<notin> set (columns t)" using None by (simp add: col_index_None)
    ultimately show ?thesis by (simp add: apply_row_absent)
  next
    case (Some j)
    then have r1: "rows ?t1 = map (\<lambda>r. r[j := to_numeric parse (cell_at r j)]) (rows t)"
      by (simp add: rows_coerce_column)
    have w1: "\<forall>r \<in> set (rows ?t1). length r = length (columns ?t1)"
      using Cons.prems(3) by (auto simp: r1 c1)
    have "rows (foldl (coerce_column parse) ?t1 ls) = map (apply_row ls (to_numeric parse) (columns t)) (rows ?t1)"
      using Cons.IH [of ?t1] Cons.prems(1,2) c1 w1 by simp
    also have "\<dots> = map (apply_row (l # ls) (to_numeric parse) (columns t)) (rows t)"
      unfolding r1 map_map
    proof (rule map_cong [OF refl])
      fix r assume "r \<in> set (rows t)"
      then have "length r = length (columns t)" using Cons.prems(3) by blast
      then show "(apply_row ls (to_numeric parse) (columns t) \<circ> (\<lambda>r. r[j := to_numeric parse (cell_at r j)])) r
                 = apply_row (l # ls) (to_numeric parse) (columns t) r"
        using apply_row_step [OF Cons.prems(2) _ Some, of r ls "to_numeric parse"] Cons.prems(1) by simp
    qed
    finally show ?thesis by simp
  qed
qed

lemma schema_foldl_coerce:
  "distinct (columns t) \<Longrightarrow>
   schema (foldl (coerce_column parse) t ls) = retype ls Numeric (schema t)"
proof (induction ls arbitrary: t)
  case Nil
  then show ?case by (simp add: retype_Nil)
next
  case (Cons l ls)
  let ?t1 = "coerce_column parse t l"
  have c1: "columns ?t1 = columns t" by (rule columns_coerce_column)
  have ih: "schema (foldl (coerce_column parse) ?t1 ls) = retype ls Numeric (schema ?t1)"
    using Cons.IH [of ?t1] Cons.prems c1 by simp
  show ?case
  proof (cases "col_index l (columns t)")
    case None
    then have "l \<notin> set (map fst (schema t))" by (simp add: col_index_None columns_def)
    then show ?thesis using ih None by (simp add: schema_coerce_column retype_absent)
  next
    case (Some j)
    then show ?thesis using ih Cons.prems
      by (simp add: schema_coerce_column retype_step columns_def)
  qed
qed

lemma normalize_step_rows:
  assumes "\<forall>r \<in> set (rows t). length r = length (columns t)" "j < length (columns t)"
  shows "rows (map_column j Object (str_lower lower) (map_column j Object (str_strip isspace) t)) =
         map (\<lambda>r. r[j := str_lower lower (str_strip isspace (cell_at r j))]) (rows t)"
  unfolding rows_map_column map_map
proof (rule map_cong [OF refl])
  fix r assume "r \<in> set (rows t)"
  then have "j < length r" using assms by auto
  then show "((\<lambda>r. r[j := str_lower lower (cell_at r j)]) \<circ> (\<lambda>r. r[j := str_strip isspace (cell_at r j)])) r
             = r[j := str_lower lower (str_strip isspace (cell_at r j))]"
    by (simp add: cell_at_def)
qed

lemma normalize_step_schema:
  "schema (map_column j Object (str_lower lower) (map_column j Object (str_strip isspace) t)) =
   (schema t)[j := (fst (schema t ! j), Object)]"
  by (cases "j < length (schema t)") (simp_all add: schema_map_column list_update_beyond)

lemma normalize_step_columns:
  "columns (map_column j Object (str_lower lower) (map_column j Object (str_strip isspace) t)) = columns t"
  by (simp add: columns_map_column)

lemma normalize_categorical_Inr:
  assumes "normalize_categorical isspace lower ls t = Inr t'" "distinct ls" "distinct (columns t)"
    "\<forall>r \<in> set (rows t). length r = length (columns t)"
  shows "rows t' = map (apply_row ls (\<lambda>v. str_lower lower (str_strip isspace v)) (columns t)) (rows t)
       \<and> schema t' = retype ls Object (schema t)"
  using assms
proof (induction ls arbitrary: t)
  case Nil
  then show ?case by (simp add: apply_row_Nil map_idI retype_Nil)
next
  case (Cons l ls)
  let ?g = "\<lambda>v. str_lower lower (str_strip isspace v)"
  show ?case
  proof (cases "col_index l (columns t)")
    case None
    then have run: "normalize_categorical isspace lower ls t = Inr t'" using Cons.prems(1) by simp
    have absent: "l \<notin> set (columns t)" using None by (simp add: col_index_None)
    then have "l \<notin> set (map fst (schema t))" by (simp add: columns_def)
    then show ?thesis
      using Cons.IH [OF run] Cons.prems(2,3,4) absent by (simp add: apply_row_absent retype_absent)
  next
    case (Some j)
    let ?t1 = "map_column j Object (str_lower lower) (map_column j Object (str_strip isspace) t)"
    have run: "normalize_categorical isspace lower ls ?t1 = Inr t'"
      using Cons.prems(1) Some by (simp split: if_splits)
    have j: "j < length (columns t)" using Some col_index_Some by blast
    have c1: "columns ?t1 = columns t" by (rule normalize_step_columns)
    have r1: "rows ?t1 = map (\<lambda>r. r[j := ?g (cell_at r j)]) (rows t)"
      using normalize_step_rows [OF Cons.prems(4) j] .
    have w1: "\<forall>r \<in> set (rows ?t1). length r = length (columns ?t1)"
      using Cons.prems(4) by (auto simp: r1 c1)
    have d1: "distinct (columns ?t1)" using Cons.prems(3) c1 by simp
    from Cons.IH [OF run _ d1 w1] Cons.prems(2)
    have ih: "rows t' = map (apply_row ls ?g (columns t)) (rows ?t1)"
             "schema t' = retype ls Object (schema ?t1)"
      by (simp_all add: c1)
    have "map (apply_row ls ?g (columns t)) (rows ?t1) = map (apply_row (l # ls) ?g (columns t)) (rows t)"
      unfolding r1 map_map
    proof (rule map_cong [OF refl])
      fix r assume "r \<in> set (rows t)"
      then have "length r = length (columns t)" using Cons.prems(4) by blast
      then show "(apply_row ls ?g (columns t) \<circ> (\<lambda>r. r[j := ?g (cell_at r j)])) r
                 = apply_row (l # ls) ?g (columns t) r"
        using apply_row_step [OF Cons.prems(3) _ Some, of r ls ?g] Cons.prems(2) by simp
    qed
    moreover have "retype ls Object (schema ?t1) = retype (l # ls) Object (schema t)"
      using retype_step [of "schema t" l j ls Object] Cons.prems(3) Some
      by (simp add: normalize_step_schema columns_def)
    ultimately show ?thesis using ih by simp
  qed
qed

text \<open>The loop raises exactly when a categorical label names a non-object column.\<close>

lemma normalize_categorical_object:
  assumes "normalize_categorical isspace lower ls t = Inr t'" "distinct ls" "distinct (columns t)"
    "l \<in> set ls" "col_index l (columns t) = Some j"
  shows "snd (schema t ! j) = Object"
  using assms
proof (induction ls arbitrary: t)
  case Nil
  then show ?case by simp
next
  case (Cons a ls)
  show ?case
  proof (cases "col_index a (columns t)")
    case None
    then have "a \<noteq> l" using Cons.prems(5) by auto
    then show ?thesis using Cons None by auto
  next
    case (Some i)
    let ?t1 = "map_column i Object (str_lower lower) (map_column i Object (str_strip isspace) t)"
    have run: "normalize_categorical isspace lower ls ?t1 = Inr t'" and obj: "snd (schema t ! i) \<noteq> Numeric"
      using Cons.prems(1) Some by (simp_all split: if_splits)
    show ?thesis
    proof (cases "a = l")
      case True
      then have "i = j" using Some Cons.prems(5) by simp
      then show ?thesis using obj by (cases "snd (schema t ! j)") auto
    next
      case False
      then have l: "l \<in> set ls" using Cons.prems(4) by simp
      have c1: "columns ?t1 = columns t" by (rule normalize_step_columns)
      have "i \<noteq> j" using False Some Cons.prems(5) col_index_Some by blast
      then have same: "schema ?t1 ! j = schema t ! j"
        by (simp add: normalize_step_schema)
      have "snd (schema ?t1 ! j) = Object"
        using Cons.IH [OF run _ _ l] Cons.prems(2,3,5) c1 by simp
      then show ?thesis using same by simp
    qed
  qed
qed

lemma normalize_categorical_total:
  assumes "\<forall>l \<in> set ls. \<forall>j. col_index l (columns t) = Some j \<longrightarrow> snd (schema t ! j) = Object"
  shows "\<exists>t'. normalize_categorical isspace lower ls t = Inr t'"
  using assms
proof (induction ls arbitrary: t)
  case Nil
  then show ?case by simp
next
  case (Cons a ls)
  show ?case
  proof (cases "col_index a (columns t)")
    case None
    then show ?thesis using Cons by simp
  next
    case (Some i)
    let ?t1 = "map_column i Object (str_lower lower) (map_column i Object (str_strip isspace) t)"
    have c1: "columns ?t1 = columns t" by (rule normalize_step_columns)
    have i: "i < length (schema t)" using Some col_index_Some [of a "columns t" i] by (simp add: columns_def)
    have "snd (schema ?t1 ! j) = Object" if "col_index l (columns t) = Some j" "l \<in> set ls" for l j
    proof (cases "j = i")
      case True
      then show ?thesis using i by (simp add: normalize_step_schema)
    next
      case False
      then show ?thesis using Cons.prems that by (simp add: normalize_step_schema)
    qed
    then have "\<exists>t'. normalize_categorical isspace lower ls ?t1 = Inr t'"
      using Cons.IH [of ?t1] c1 by simp
    moreover have "snd (schema t ! i) = Object" using Cons.prems Some by simp
    ultimately show ?thesis using Some by simp
  qed
qed

lemma last_dropWhile: "dropWhile P xs \<noteq> [] \<Longrightarrow> last (dropWhile P xs) = last xs"
  by (induction xs) (auto split: if_splits)

lemma trimmed_strip: "trimmed isspace (strip isspace s)"
proof -
  let ?a = "dropWhile isspace s"
  let ?b = "dropWhile isspace (rev ?a)"
  show ?thesis
  proof (cases "?b = []")
    case True
    then show ?thesis by (simp add: trimmed_def strip_def)
  next
    case False
    have a: "?a \<noteq> []"
    proof
      assume "?a = []"
      then have "?b = []" by (simp only: rev.simps dropWhile.simps)
      then show False using False by (simp only:)
    qed
    have "\<not> isspace (hd ?b)" using False by (rule hd_dropWhile)
    moreover have "last ?b = last (rev ?a)" using False by (rule last_dropWhile)
    then have "last ?b = hd ?a" using a by (simp add: last_rev)
    then have "\<not> isspace (last ?b)" using hd_dropWhile [OF a] by simp
    ultimately show ?thesis using False
      by (simp add: trimmed_def strip_def hd_rev last_rev)
  qed
qed

lemma dropWhile_hd_id: "xs \<noteq> [] \<Longrightarrow> \<not> P (hd xs) \<Longrightarrow> dropWhile P xs = xs"
  by (cases xs) auto

lemma strip_trimmed: "trimmed isspace s \<Longrightarrow> strip isspace s = s"
proof (cases "s = []")
  case True
  then show ?thesis by (simp add: strip_def)
next
  case False
  assume "trimmed isspace s"
  then have h: "\<not> isspace (hd s)" and l: "\<not> isspace (last s)"
    using False by (simp_all add: trimmed_def)
  have "dropWhile isspace s = s" using False h by (rule dropWhile_hd_id)
  moreover have "dropWhile isspace (rev s) = rev s"
    using False l by (intro dropWhile_hd_id) (simp_all add: hd_rev)
  ultimately show ?thesis by (simp add: strip_def)
qed

lemma strip_idem: "strip isspace (strip isspace s) = strip isspace s"
  by (rule strip_trimmed) (rule trimmed_strip)

lemma lower_okD:
  assumes "lower_ok isspace lower"
  shows "lower (lower s) = lower s"
    and "trimmed isspace s \<Longrightarrow> trimmed isspace (lower s)"
  using assms by (simp_all add: lower_ok_def)

lemma is_normal_lower_strip:
  assumes "lower_ok isspace lower"
  shows "is_normal isspace lower (lower (strip isspace s))"
  unfolding is_normal_def lower_case_def
  using lower_okD [OF assms] trimmed_strip [of isspace s] by simp

lemma is_normal_fixed:
  "is_normal isspace lower s \<Longrightarrow> strip isspace s = s \<and> lower s = s"
  by (simp add: is_normal_def lower_case_def strip_trimmed)

lemma normalize_value_idem:
  assumes "lower_ok isspace lower"
  shows "lower (strip isspace (lower (strip isspace s))) = lower (strip isspace s)"
proof -
  have "is_normal isspace lower (lower (strip isspace s))"
    using assms by (rule is_normal_lower_strip)
  then have "strip isspace (lower (strip isspace s)) = lower (strip isspace s)"
    by (simp add: is_normal_fixed)
  then show ?thesis using lower_okD(1) [OF assms] by simp
qed

text \<open>The Latin-1 functions of the examples have the two properties.\<close>

lemma latin1_lower_char_not_upper: "\<not> latin1_isupper (latin1_lower_char c)"
  by (auto simp: latin1_lower_char_def latin1_isupper_def Let_def)

lemma latin1_isspace_lower_char: "latin1_isspace (latin1_lower_char c) = latin1_isspace c"
  by (auto simp: latin1_lower_char_def latin1_isupper_def latin1_isspace_def Let_def)

lemma latin1_lower_char_idem: "latin1_lower_char (latin1_lower_char c) = latin1_lower_char c"
  using latin1_lower_char_not_upper [of c] by (simp add: latin1_lower_char_def [of "latin1_lower_char c"])

lemma lower_ok_latin1: "lower_ok latin1_isspace latin1_lower"
proof -
  have "latin1_lower (latin1_lower s) = latin1_lower s" for s
    by (simp add: latin1_lower_def latin1_lower_char_idem)
  moreover have "trimmed latin1_isspace (latin1_lower s)" if "trimmed latin1_isspace s" for s
  proof (cases "s = []")
    case True
    then show ?thesis by (simp add: trimmed_def latin1_lower_def)
  next
    case False
    then show ?thesis using that
      by (simp add: trimmed_def latin1_lower_def hd_map last_map latin1_isspace_lower_char)
  qed
  ultimately show ?thesis by (simp add: lower_ok_def)
qed

lemma distinct_label_lists: "distinct numeric_columns" "distinct categorical_columns"
  by (simp_all add: numeric_columns_def categorical_columns_def)

lemma notnull_row:
  "length r = n \<Longrightarrow> list_all (\<lambda>j. \<not> isnull (cell_at r j)) [0..<n] = (NaN \<notin> set r)"
  by (auto simp: list_all_iff isnull_def cell_at_def in_set_conv_nth)

lemma rows_dropna:
  assumes "\<forall>r \<in> set (rows t). length r = length (schema t)"
  shows "rows (dropna t) = filter (\<lambda>r. NaN \<notin> set r) (rows t)"
  unfolding dropna_def using assms
  by (auto intro!: filter_cong simp: notnull_row)

lemma schema_dropna: "schema (dropna t) = schema t"
  by (simp add: dropna_def)

lemma schema_drop_duplicates: "schema (drop_duplicates t) = schema t"
  by (simp add: drop_duplicates_def)

lemma rows_drop_duplicates: "rows (drop_duplicates t) = keep_first [] (rows t)"
  by (simp add: drop_duplicates_def)

lemma subset_notnull_cong: "columns a = columns b \<Longrightarrow> subset_notnull a = subset_notnull b"
  by (intro ext) (simp add: subset_notnull_def)

lemma dropna_subset_Inr:
  "dropna_subset labels t = Inr t' \<Longrightarrow>
     set labels \<subseteq> set (columns t) \<and> schema t' = schema t
     \<and> rows t' = filter (subset_notnull t labels) (rows t)"
  by (auto simp: dropna_subset_def Let_def filter_empty_conv split: if_splits)

lemma dropna_subset_Inl:
  "dropna_subset labels t = Inl e \<Longrightarrow> \<not> set labels \<subseteq> set (columns t)"
  by (auto simp: dropna_subset_def Let_def filter_empty_conv split: if_splits)

lemma columns_coerce_numeric: "columns (coerce_numeric parse t) = columns t"
proof -
  have "columns (foldl (coerce_column parse) t ls) = columns t" for ls
    by (induction ls arbitrary: t) (simp_all add: columns_coerce_column)
  then show ?thesis by (simp add: coerce_numeric_def)
qed

lemma rows_coerce_numeric:
  "distinct (columns t) \<Longrightarrow> \<forall>r \<in> set (rows t). length r = length (columns t) \<Longrightarrow>
   rows (coerce_numeric parse t) = map (coerce_row parse (columns t)) (rows t)"
  unfolding coerce_numeric_def
  using rows_foldl_coerce [OF distinct_label_lists(1), of t parse]
  by (simp add: coerce_row_def [abs_def])

lemma schema_coerce_numeric:
  "distinct (columns t) \<Longrightarrow> schema (coerce_numeric parse t) = retype numeric_columns Numeric (schema t)"
  by (simp add: coerce_numeric_def schema_foldl_coerce)

text \<open>The shape of a successful run: the frame and the three counts, stage by stage.\<close>

lemma clean_Inr:
  assumes ok: "clean isspace lower parse t = Inr (out, rep)"
    and dist: "distinct (columns t)"
    and wide: "\<forall>r \<in> set (rows t). length r = length (schema t)"
  shows "set numeric_columns \<subseteq> set (columns t)"
    and "schema out = retype categorical_columns Object (retype numeric_columns Numeric (schema t))"
    and "rows out = map (normalize_row isspace lower (columns t))
           (filter (subset_notnull t numeric_columns)
             (map (coerce_row parse (columns t)) (rows (dropna (drop_duplicates t)))))"
    and "duplicates_removed rep = length (rows t) - length (rows (drop_duplicates t))"
    and "missing_count rep = isnull_sum_sum (drop_duplicates t)"
    and "invalid_rows_removed rep =
           length (rows (dropna (drop_duplicates t)))
           - length (filter (subset_notnull t numeric_columns)
               (map (coerce_row parse (columns t)) (rows (dropna (drop_duplicates t)))))"
proof -
  let ?d2 = "dropna (drop_duplicates t)"
  let ?d3 = "coerce_numeric parse ?d2"
  have c2: "columns ?d2 = columns t"
    by (simp add: columns_def schema_dropna schema_drop_duplicates)
  have w2: "\<forall>r \<in> set (rows ?d2). length r = length (columns ?d2)"
    using wide by (auto simp: dropna_def drop_duplicates_def set_keep_first columns_def)
  have c3: "columns ?d3 = columns t" using c2 by (simp add: columns_coerce_numeric)
  have r3: "rows ?d3 = map (coerce_row parse (columns t)) (rows ?d2)"
    using rows_coerce_numeric [of ?d2 parse] dist c2 w2 by simp
  have s3: "schema ?d3 = retype numeric_columns Numeric (schema t)"
    using schema_coerce_numeric [of ?d2 parse] dist c2
    by (simp add: schema_dropna schema_drop_duplicates)
  from ok obtain d4 where d4: "dropna_subset numeric_columns ?d3 = Inr d4"
    and d5: "normalize_categorical isspace lower categorical_columns d4 = Inr out"
    and rep: "rep = \<lparr>duplicates_removed = length (rows t) - length (rows (drop_duplicates t)),
                     missing_count = isnull_sum_sum (drop_duplicates t),
                     invalid_rows_removed = length (rows ?d3) - length (rows d4)\<rparr>"
    by (auto simp: clean_def Let_def split: sum.splits)
  from dropna_subset_Inr [OF d4]
  have sub: "set numeric_columns \<subseteq> set (columns ?d3)" and s4: "schema d4 = schema ?d3"
    and r4: "rows d4 = filter (subset_notnull ?d3 numeric_columns) (rows ?d3)"
    by simp_all
  have sn: "subset_notnull ?d3 = subset_notnull t" using c3 by (rule subset_notnull_cong)
  have c4: "columns d4 = columns t" using s4 c3 by (simp add: columns_def)
  have w4: "\<forall>r \<in> set (rows d4). length r = length (columns d4)"
  proof
    fix r assume "r \<in> set (rows d4)"
    then obtain r0 where "r0 \<in> set (rows ?d2)" "r = coerce_row parse (columns t) r0"
      by (auto simp: r4 r3)
    then show "length r = length (columns d4)"
      using w2 c2 c4 by (simp add: coerce_row_def length_apply_row)
  qed
  from normalize_categorical_Inr [OF d5 distinct_label_lists(2)] dist c4 w4
  have r5: "rows out = map (normalize_row isspace lower (columns t)) (rows d4)"
    and s5: "schema out = retype categorical_columns Object (schema d4)"
    by (simp_all add: normalize_row_def [abs_def])
  show "set numeric_columns \<subseteq> set (columns t)" using sub c3 by simp
  show "schema out = retype categorical_columns Object (retype numeric_columns Numeric (schema t))"
    using s5 s4 s3 by simp
  show "rows out = map (normalize_row isspace lower (columns t))
           (filter (subset_notnull t numeric_columns)
             (map (coerce_row parse (columns t)) (rows ?d2)))"
    using r5 r4 r3 sn by simp
  show "duplicates_removed rep = length (rows t) - length (rows (drop_duplicates t))"
    using rep by simp
  show "missing_count rep = isnull_sum_sum (drop_duplicates t)" using rep by simp
  show "invalid_rows_removed rep =
           length (rows ?d2)
           - length (filter (subset_notnull t numeric_columns)
               (map (coerce_row parse (columns t)) (rows ?d2)))"
    using rep r4 r3 sn by simp
qed

lemma parse_decimal_examples:
  "parse_decimal ''2015'' = Some 2015" "parse_decimal ''abc'' = None"
  "parse_decimal ''2016'' = Some 2016"
  by (simp_all add: parse_decimal_def is_digit_def)

lemma strip_lower_examples:
  "latin1_lower (strip latin1_isspace '' Civic '') = ''civic''"
  "latin1_lower (strip latin1_isspace ''civic'') = ''civic''"
  "latin1_lower (strip latin1_isspace ''Lahore'') = ''lahore''"
  "latin1_lower (strip latin1_isspace ''lahore'') = ''lahore''"
  by code_simp+

lemma upt_5: "[0..<5] = [0, 1, 2, 3, 4]"
  by code_simp

lemma listings_run:
  "clean latin1_isspace latin1_lower parse_decimal listings =
     Inr (listings_clean, \<lparr>duplicates_removed = 1, missing_count = 2, invalid_rows_removed = 1\<rparr>)"
proof -
  define sch where "sch = schema listings"
  define r1 :: "(char, rat) cell list" where "r1 = [Num 100000, Num 12, Str ''2015'', Str '' Civic '', Str ''Lahore'']"
  define r3 :: "(char, rat) cell list" where "r3 = [Num 200000, Num 10, Str ''abc'', Str ''City'', Str ''Karachi'']"
  define r4 :: "(char, rat) cell list" where "r4 = [Num 300000, NaN, Str ''2018'', NaN, Str ''Karachi'']"
  define r5 :: "(char, rat) cell list" where "r5 = [Num 100000, Num 12, Str ''2015'', Str ''civic'', Str ''lahore'']"
  have l: "listings = \<lparr>schema = sch, rows = [r1, r1, r3, r4, r5]\<rparr>"
    by (simp add: listings_def sch_def r1_def r3_def r4_def r5_def)
  have ne: "r1 \<noteq> r3" "r1 \<noteq> r4" "r1 \<noteq> r5" "r3 \<noteq> r4" "r3 \<noteq> r5" "r4 \<noteq> r5"
    by (simp_all add: r1_def r3_def r4_def r5_def)
  have s1: "drop_duplicates listings = \<lparr>schema = sch, rows = [r1, r3, r4, r5]\<rparr>"
    using ne by (auto simp add: l drop_duplicates_def)
  have len: "length sch = 5" by (simp add: sch_def listings_def)
  have s2: "isnull_sum_sum \<lparr>schema = sch, rows = [r1, r3, r4, r5]\<rparr> = 2"
    by (simp add: isnull_sum_sum_def isnull_sum_def len upt_5 cell_at_def isnull_def
        r1_def r3_def r4_def r5_def)
  have s3: "dropna \<lparr>schema = sch, rows = [r1, r3, r4, r5]\<rparr> = \<lparr>schema = sch, rows = [r1, r3, r5]\<rparr>"
    by (simp add: dropna_def len upt_5 cell_at_def isnull_def r1_def r3_def r4_def r5_def)
  have cols: "map fst sch = [''price'', ''mileage'', ''year'', ''model'', ''city'']"
    by (simp add: sch_def listings_def)
  define sch' where "sch' = schema listings_clean"
  have cols': "map fst sch' = [''price'', ''mileage'', ''year'', ''model'', ''city'']"
    by (simp add: sch'_def listings_clean_def)
  define c1 :: "(char, rat) cell list" where "c1 = [Num 100000, Num 12, Num 2015, Str '' Civic '', Str ''Lahore'']"
  define c5 :: "(char, rat) cell list" where "c5 = [Num 100000, Num 12, Num 2015, Str ''civic'', Str ''lahore'']"
  define c3 :: "(char, rat) cell list" where "c3 = [Num 200000, Num 10, NaN, Str ''City'', Str ''Karachi'']"
  have s4: "coerce_numeric parse_decimal \<lparr>schema = sch, rows = [r1, r3, r5]\<rparr>
            = \<lparr>schema = sch', rows = [c1, c3, c5]\<rparr>"
    by (simp add: coerce_numeric_def numeric_columns_def coerce_column_def columns_def cols
        map_column_def cell_at_def parse_decimal_examples r1_def r3_def r5_def c1_def c3_def c5_def
        sch_def sch'_def listings_def listings_clean_def)
  have s5: "dropna_subset numeric_columns \<lparr>schema = sch', rows = [c1, c3, c5]\<rparr>
            = Inr \<lparr>schema = sch', rows = [c1, c5]\<rparr>"
    by (simp add: dropna_subset_def numeric_columns_def columns_def cols' subset_notnull_def
        cell_at_def isnull_def c1_def c3_def c5_def)
  have s6: "normalize_categorical latin1_isspace latin1_lower categorical_columns
              \<lparr>schema = sch', rows = [c1, c5]\<rparr>
            = Inr \<lparr>schema = sch', rows = [c5, c5]\<rparr>"
    by (simp add: categorical_columns_def columns_def cols' map_column_def cell_at_def
        strip_lower_examples c1_def c5_def sch'_def listings_clean_def)
  have fin: "\<lparr>schema = sch', rows = [c5, c5]\<rparr> = listings_clean"
    by (simp add: sch'_def c5_def listings_clean_def)
  have n: "length (rows listings) = 5" by (simp add: l)
  show ?thesis
    unfolding clean_def Let_def n s1 by (simp add: s2 s3 s4 s5 s6 fin)
qed

lemma rows_foldl_coerce_map: "\<exists>f. rows (foldl (coerce_column parse) t ls) = map f (rows t)"
proof (induction ls arbitrary: t)
  case Nil
  have "rows (foldl (coerce_column parse) t []) = map (\<lambda>r. r) (rows t)" by simp
  then show ?case by blast
next
  case (Cons l ls)
  obtain g where g: "rows (coerce_column parse t l) = map g (rows t)"
  proof (cases "col_index l (columns t)")
    case None
    then have "rows (coerce_column parse t l) = map (\<lambda>r. r) (rows t)"
      by (simp add: rows_coerce_column)
    then show ?thesis by (rule that)
  next
    case (Some j)
    then have "rows (coerce_column parse t l) = map (\<lambda>r. r[j := to_numeric parse (cell_at r j)]) (rows t)"
      by (simp add: rows_coerce_column)
    then show ?thesis by (rule that)
  qed
  from Cons.IH [of "coerce_column parse t l"] obtain f
    where "rows (foldl (coerce_column parse) (coerce_column parse t l) ls) = map f (rows (coerce_column parse t l))"
    by blast
  then have "rows (foldl (coerce_column parse) t (l # ls)) = map (f \<circ> g) (rows t)"
    using g by simp
  then show ?case by blast
qed

lemma rows_normalize_map:
  "normalize_categorical isspace lower ls t = Inr t' \<Longrightarrow> \<exists>f. rows t' = map f (rows t)"
proof (induction ls arbitrary: t)
  case Nil
  then have "rows t' = map (\<lambda>r. r) (rows t)" by simp
  then show ?case by blast
next
  case (Cons l ls)
  show ?case
  proof (cases "col_index l (columns t)")
    case None
    then show ?thesis using Cons by simp
  next
    case (Some j)
    let ?t1 = "map_column j Object (str_lower lower) (map_column j Object (str_strip isspace) t)"
    have run: "normalize_categorical isspace lower ls ?t1 = Inr t'"
      using Cons.prems Some by (simp split: if_splits)
    then obtain f where f: "rows t' = map f (rows ?t1)" using Cons.IH by blast
    have "rows ?t1 = map ((\<lambda>r. r[j := str_lower lower (cell_at r j)]) \<circ> (\<lambda>r. r[j := str_strip isspace (cell_at r j)])) (rows t)"
      by (simp add: rows_map_column)
    then have "rows t' = map (f \<circ> ((\<lambda>r. r[j := str_lower lower (cell_at r j)]) \<circ> (\<lambda>r. r[j := str_strip isspace (cell_at r j)]))) (rows t)"
      using f by simp
    then show ?thesis
      by blast
  qed
qed

lemma subseq_dropna: "subseq (rows (dropna t)) (rows t)"
  by (simp add: dropna_def)

lemma subseq_drop_duplicates: "subseq (rows (drop_duplicates t)) (rows t)"
  by (simp add: drop_duplicates_def subseq_keep_first)

lemma subseq_dropna_subset: "dropna_subset ls t = Inr t' \<Longrightarrow> subseq (rows t') (rows t)"
  by (auto simp: dropna_subset_def Let_def split: if_splits)

lemma clean_order:
  assumes "clean isspace lower parse t = Inr (out, rep)"
  shows "\<exists>f ys. subseq ys (rows t) \<and> rows out = map f ys"
proof -
  let ?d2 = "dropna (drop_duplicates t)"
  let ?d3 = "coerce_numeric parse ?d2"
  from assms obtain d4 where d4: "dropna_subset numeric_columns ?d3 = Inr d4"
    and d5: "normalize_categorical isspace lower categorical_columns d4 = Inr out"
    by (auto simp: clean_def Let_def split: sum.splits)
  obtain f where f: "rows ?d3 = map f (rows ?d2)"
    using rows_foldl_coerce_map [of parse ?d2 numeric_columns] by (auto simp: coerce_numeric_def)
  obtain g where g: "rows out = map g (rows d4)"
    using rows_normalize_map [OF d5] by blast
  obtain P where "rows d4 = filter P (rows ?d3)"
    using dropna_subset_Inr [OF d4] by blast
  then have r4: "rows d4 = map f (filter (P \<circ> f) (rows ?d2))"
    by (simp add: f filter_map)
  have "subseq (rows ?d2) (rows t)"
    using subseq_dropna [of "drop_duplicates t"] subseq_drop_duplicates [of t]
    by (rule subseq_order.trans)
  then have "subseq (filter (P \<circ> f) (rows ?d2)) (rows t)"
    using subseq_filter_left [of "P \<circ> f" "rows ?d2"] by (rule subseq_order.trans [rotated])
  moreover have "rows out = map (g \<circ> f) (filter (P \<circ> f) (rows ?d2))"
    using g r4 by simp
  ultimately show ?thesis by blast
qed

lemma clean_duplicates_removed:
  "clean isspace lower parse t = Inr (out, rep) \<Longrightarrow>
   duplicates_removed rep = length (rows t) - length (rows (drop_duplicates t))"
  by (auto simp: clean_def Let_def split: sum.splits)

section \<open>The claims\<close>

text \<open>
  C6. Deduplication removes exactly the rows equal to an earlier row: the row at
  position \<open>i\<close> survives if and only if no row at a position \<open>j < i\<close> equals it, and the
  survivors keep their order. Each filtering step returns a sub-sequence of the rows it
  was given, and the rows of a successful run of the whole pipeline are the images, in
  order, of a sub-sequence of the input rows. On rows \<open>[A, A, B]\<close> with \<open>A \<noteq> B\<close>
  deduplication gives \<open>[A, B]\<close> and the reported count of removed duplicates is 1.
\<close>

theorem C6_deduplication_keeps_first_and_order:
  "rows (drop_duplicates t) =
     map (\<lambda>i. rows t ! i) (filter (\<lambda>i. \<forall>j<i. rows t ! j \<noteq> rows t ! i) [0..<length (rows t)])
   \<and> subseq (rows (drop_duplicates t)) (rows t)
   \<and> subseq (rows (dropna t)) (rows t)
   \<and> (\<forall>ls t'. dropna_subset ls t = Inr t' \<longrightarrow> subseq (rows t') (rows t))
   \<and> (\<forall>out rep. clean isspace lower parse t = Inr (out, rep) \<longrightarrow>
         (\<exists>f ys. subseq ys (rows t) \<and> rows out = map f ys)
         \<and> duplicates_removed rep = length (rows t) - length (rows (drop_duplicates t)))
   \<and> (\<forall>A B. A \<noteq> B \<and> rows t = [A, A, B] \<longrightarrow>
         rows (drop_duplicates t) = [A, B]
         \<and> length (rows t) - length (rows (drop_duplicates t)) = 1)"
proof (intro conjI allI impI)
  show "rows (drop_duplicates t) =
     map (\<lambda>i. rows t ! i) (filter (\<lambda>i. \<forall>j<i. rows t ! j \<noteq> rows t ! i) [0..<length (rows t)])"
    by (simp only: rows_drop_duplicates keep_first_positions)
  show "subseq (rows (drop_duplicates t)) (rows t)" by (rule subseq_drop_duplicates)
  show "subseq (rows (dropna t)) (rows t)" by (rule subseq_dropna)
next
  fix ls t' assume "dropna_subset ls t = Inr t'"
  then show "subseq (rows t') (rows t)" by (rule subseq_dropna_subset)
next
  fix out rep assume "clean isspace lower parse t = Inr (out, rep)"
  then show "\<exists>f ys. subseq ys (rows t) \<and> rows out = map f ys" by (rule clean_order)
next
  fix out rep assume "clean isspace lower parse t = Inr (out, rep)"
  then show "duplicates_removed rep = length (rows t) - length (rows (drop_duplicates t))"
    by (rule clean_duplicates_removed)
next
  fix A B assume "A \<noteq> B \<and> rows t = [A, A, B]"
  then show "rows (drop_duplicates t) = [A, B]" by (auto simp: rows_drop_duplicates)
next
  fix A B assume "A \<noteq> B \<and> rows t = [A, A, B]"
  then show "length (rows t) - length (rows (drop_duplicates t)) = 1"
    by (auto simp: rows_drop_duplicates)
qed

lemma aab_run:
  "clean isspace lower parse aab =
     Inr (aab\<lparr>rows := [[Num 100000, Num 12, Num 2015], [Num 250000, Num 9, Num 2018]]\<rparr>,
          \<lparr>duplicates_removed = 1, missing_count = 0, invalid_rows_removed = 0\<rparr>)"
proof -
  define sch where "sch = schema aab"
  define A :: "(char, rat) cell list" where "A = [Num 100000, Num 12, Num 2015]"
  define B :: "(char, rat) cell list" where "B = [Num 250000, Num 9, Num 2018]"
  have l: "aab = \<lparr>schema = sch, rows = [A, A, B]\<rparr>"
    by (simp add: aab_def sch_def A_def B_def)
  have ne: "A \<noteq> B" by (simp add: A_def B_def)
  have s1: "drop_duplicates aab = \<lparr>schema = sch, rows = [A, B]\<rparr>"
    using ne by (simp add: l drop_duplicates_def)
  have len: "length sch = 3" by (simp add: sch_def aab_def)
  have u3: "[0..<3] = [0, 1, 2]" by code_simp
  have s2: "isnull_sum_sum \<lparr>schema = sch, rows = [A, B]\<rparr> = 0"
    by (simp add: isnull_sum_sum_def isnull_sum_def len u3 cell_at_def isnull_def A_def B_def)
  have s3: "dropna \<lparr>schema = sch, rows = [A, B]\<rparr> = \<lparr>schema = sch, rows = [A, B]\<rparr>"
    by (simp add: dropna_def len u3 cell_at_def isnull_def A_def B_def)
  have cols: "map fst sch = [''price'', ''mileage'', ''year'']"
    by (simp add: sch_def aab_def)
  have s4: "coerce_numeric parse \<lparr>schema = sch, rows = [A, B]\<rparr> = \<lparr>schema = sch, rows = [A, B]\<rparr>"
    by (simp add: coerce_numeric_def numeric_columns_def coerce_column_def columns_def cols
        map_column_def cell_at_def A_def B_def sch_def aab_def)
  have s5: "dropna_subset numeric_columns \<lparr>schema = sch, rows = [A, B]\<rparr>
            = Inr \<lparr>schema = sch, rows = [A, B]\<rparr>"
    by (simp add: dropna_subset_def numeric_columns_def columns_def cols subset_notnull_def
        cell_at_def isnull_def A_def B_def)
  have s6: "normalize_categorical isspace lower categorical_columns \<lparr>schema = sch, rows = [A, B]\<rparr>
            = Inr \<lparr>schema = sch, rows = [A, B]\<rparr>"
    by (simp add: categorical_columns_def columns_def cols)
  have fin: "\<lparr>schema = sch, rows = [A, B]\<rparr> = aab\<lparr>rows := [[Num 100000, Num 12, Num 2015], [Num 250000, Num 9, Num 2018]]\<rparr>"
    by (simp add: sch_def A_def B_def aab_def)
  have n: "length (rows aab) = 3" by (simp add: l)
  show ?thesis
    unfolding fin [symmetric] clean_def Let_def n s1 by (simp add: s2 s3 s4 s5 s6)
qed

theorem C6_witness:
  "rows (drop_duplicates aab) = [[Num 100000, Num 12, Num 2015], [Num 250000, Num 9, Num 2018]]
   \<and> length (rows aab) - length (rows (drop_duplicates aab)) = 1
   \<and> (\<exists>out rep. clean latin1_isspace latin1_lower parse_decimal aab = Inr (out, rep) \<and> duplicates_removed rep = 1
        \<and> (\<exists>f ys. subseq ys (rows aab) \<and> rows out = map f ys))"
proof -
  let ?A = "[Num 100000, Num 12, Num 2015] :: (char, rat) cell list"
  let ?B = "[Num 250000, Num 9, Num 2018] :: (char, rat) cell list"
  let ?out = "aab\<lparr>rows := [?A, ?B]\<rparr>"
  let ?rep = "\<lparr>duplicates_removed = 1, missing_count = 0, invalid_rows_removed = 0\<rparr>"
  note c6 = C6_deduplication_keeps_first_and_order [where t = aab and isspace = latin1_isspace
      and lower = latin1_lower and parse = parse_decimal]
  note tl4 = c6 [THEN conjunct2, THEN conjunct2, THEN conjunct2, THEN conjunct2]
  note ord = tl4 [THEN conjunct1, rule_format]
  note ab = tl4 [THEN conjunct2, rule_format]
  have hyp: "?A \<noteq> ?B \<and> rows aab = [?A, ?A, ?B]" by (simp add: aab_def)
  have run: "clean latin1_isspace latin1_lower parse_decimal aab = Inr (?out, ?rep)" by (rule aab_run)
  have d: "rows (drop_duplicates aab) = [?A, ?B]"
    using ab [OF hyp] by (rule conjunct1)
  have n: "length (rows aab) - length (rows (drop_duplicates aab)) = 1"
    using ab [OF hyp] by (rule conjunct2)
  have o: "\<exists>f ys. subseq ys (rows aab) \<and> rows ?out = map f ys"
    using ord [OF run] by (rule conjunct1)
  have "clean latin1_isspace latin1_lower parse_decimal aab = Inr (?out, ?rep) \<and> duplicates_removed ?rep = 1
        \<and> (\<exists>f ys. subseq ys (rows aab) \<and> rows ?out = map f ys)"
    using run o by simp
  then have "\<exists>out rep. clean latin1_isspace latin1_lower parse_decimal aab = Inr (out, rep) \<and> duplicates_removed rep = 1
        \<and> (\<exists>f ys. subseq ys (rows aab) \<and> rows out = map f ys)"
    by (intro exI)
  then show ?thesis using d n by simp
qed

lemma count_list_sum: "count_list r c = (\<Sum>x\<leftarrow>r. if x = c then 1 else 0)"
  by (induction r) auto

lemma null_cells_of_row:
  assumes "length r = n"
  shows "(\<Sum>j\<leftarrow>[0..<n]. if isnull (cell_at r j) then 1 else 0) = count_list r NaN"
proof -
  have "map (\<lambda>j. if isnull (cell_at r j) then 1 else (0::nat)) [0..<length r]
        = map (\<lambda>j. (\<lambda>x. if x = NaN then 1 else 0) (r ! j)) [0..<length r]"
    by (rule map_cong) (simp_all add: cell_at_def isnull_def)
  also have "\<dots> = map (\<lambda>x. if x = NaN then 1 else 0) (map (\<lambda>j. r ! j) [0..<length r])"
    by simp
  also have "\<dots> = map (\<lambda>x. if x = NaN then 1 else 0) r"
    by (simp only: map_nth)
  finally show ?thesis using assms by (simp add: count_list_sum)
qed

lemma isnull_sum_sum_rows:
  "\<forall>r \<in> set rs. length r = n \<Longrightarrow>
   (\<Sum>j\<leftarrow>[0..<n]. length (filter (\<lambda>r. isnull (cell_at r j)) rs)) = (\<Sum>r\<leftarrow>rs. count_list r NaN)"
proof (induction rs)
  case Nil
  then show ?case by simp
next
  case (Cons r rs)
  have "(\<Sum>j\<leftarrow>[0..<n]. length (filter (\<lambda>r. isnull (cell_at r j)) (r # rs)))
        = (\<Sum>j\<leftarrow>[0..<n]. (if isnull (cell_at r j) then 1 else 0)
                              + length (filter (\<lambda>r. isnull (cell_at r j)) rs))"
    by (rule arg_cong [where f = sum_list]) (rule map_cong, simp_all)
  also have "\<dots> = (\<Sum>j\<leftarrow>[0..<n]. if isnull (cell_at r j) then 1 else 0)
                  + (\<Sum>j\<leftarrow>[0..<n]. length (filter (\<lambda>r. isnull (cell_at r j)) rs))"
    by (rule sum_list_addf)
  also have "\<dots> = count_list r NaN + (\<Sum>r\<leftarrow>rs. count_list r NaN)"
    using Cons null_cells_of_row [of r n] by simp
  finally show ?case by simp
qed

text \<open>
  C5. On a frame whose rows are as wide as its schema, \<^verbatim>\<open>dropna()\<close> keeps, in order,
  exactly the rows with no missing cell in any column, and the count the step reports is
  the number of missing cells of the frame before the removal, added over all rows and
  columns. The five listings have two missing cells in one removed row, so the count and
  the number of removed rows differ.
\<close>

theorem C5_missing_value_removal:
  assumes "\<forall>r \<in> set (rows t). length r = length (schema t)"
  shows "rows (dropna t) = filter (\<lambda>r. NaN \<notin> set r) (rows t)
       \<and> isnull_sum_sum t = (\<Sum>r\<leftarrow>rows t. count_list r NaN)
       \<and> (\<forall>out rep. clean isspace lower parse t = Inr (out, rep) \<longrightarrow>
             missing_count rep = (\<Sum>r\<leftarrow>rows (drop_duplicates t). count_list r NaN))"
proof (intro conjI allI impI)
  show "rows (dropna t) = filter (\<lambda>r. NaN \<notin> set r) (rows t)"
    using assms by (rule rows_dropna)
  show "isnull_sum_sum t = (\<Sum>r\<leftarrow>rows t. count_list r NaN)"
    unfolding isnull_sum_sum_def isnull_sum_def using assms by (rule isnull_sum_sum_rows)
next
  fix out rep assume "clean isspace lower parse t = Inr (out, rep)"
  then have "missing_count rep = isnull_sum_sum (drop_duplicates t)"
    by (auto simp: clean_def Let_def split: sum.splits)
  moreover have "\<forall>r \<in> set (rows (drop_duplicates t)). length r = length (schema (drop_duplicates t))"
    using assms by (simp add: drop_duplicates_def set_keep_first)
  ultimately show "missing_count rep = (\<Sum>r\<leftarrow>rows (drop_duplicates t). count_list r NaN)"
    unfolding isnull_sum_sum_def isnull_sum_def by (simp add: isnull_sum_sum_rows)
qed

lemma listings_wide: "\<forall>r \<in> set (rows listings). length r = length (schema listings)"
  by (simp add: listings_def)

theorem C5_witness:
  "rows (dropna listings) = [rows listings ! 0, rows listings ! 1, rows listings ! 2, rows listings ! 4]
   \<and> isnull_sum_sum listings = 2
   \<and> length (rows listings) - length (rows (dropna listings)) = 1
   \<and> (\<exists>out rep. clean latin1_isspace latin1_lower parse_decimal listings = Inr (out, rep) \<and> missing_count rep = 2)"
proof -
  note c5 = C5_missing_value_removal [OF listings_wide, where isspace = latin1_isspace
      and lower = latin1_lower and parse = parse_decimal]
  have r: "rows (dropna listings) = filter (\<lambda>r. NaN \<notin> set r) (rows listings)"
    using c5 by (rule conjunct1)
  have m: "isnull_sum_sum listings = (\<Sum>r\<leftarrow>rows listings. count_list r NaN)"
    using c5 [THEN conjunct2] by (rule conjunct1)
  have r': "rows (dropna listings) = [rows listings ! 0, rows listings ! 1, rows listings ! 2, rows listings ! 4]"
    unfolding r by (simp add: listings_def)
  have m': "isnull_sum_sum listings = 2"
    unfolding m by (simp add: listings_def)
  have n: "length (rows listings) - length (rows (dropna listings)) = 1"
    unfolding r' by (simp add: listings_def)
  have "clean latin1_isspace latin1_lower parse_decimal listings =
          Inr (listings_clean, \<lparr>duplicates_removed = 1, missing_count = 2, invalid_rows_removed = 1\<rparr>)
        \<and> missing_count \<lparr>duplicates_removed = 1, missing_count = 2, invalid_rows_removed = 1\<rparr> = 2"
    using listings_run by simp
  then have "\<exists>out rep. clean latin1_isspace latin1_lower parse_decimal listings = Inr (out, rep) \<and> missing_count rep = 2"
    by (intro exI)
  then show ?thesis using r' m' n by simp
qed

lemma clean_missing_numeric_column:
  assumes "\<not> set numeric_columns \<subseteq> set (columns t)"
  shows "clean isspace lower parse t = Inl (KeyError (filter (\<lambda>c. c \<notin> set (columns t)) numeric_columns))"
proof -
  let ?d3 = "coerce_numeric parse (dropna (drop_duplicates t))"
  have "columns (dropna (drop_duplicates t)) = columns t"
    by (simp add: columns_def schema_dropna schema_drop_duplicates)
  then have c3: "columns ?d3 = columns t"
    by (simp add: columns_coerce_numeric)
  have "filter (\<lambda>c. c \<notin> set (columns t)) numeric_columns \<noteq> []"
    using assms by (auto simp: filter_empty_conv)
  then have "dropna_subset numeric_columns ?d3
             = Inl (KeyError (filter (\<lambda>c. c \<notin> set (columns t)) numeric_columns))"
    by (simp add: dropna_subset_def c3)
  then show ?thesis by (simp add: clean_def Let_def)
qed

text \<open>
  C1. The table \<open>no_price\<close> has the columns \<^verbatim>\<open>mileage\<close>, \<^verbatim>\<open>year\<close> and \<^verbatim>\<open>model\<close> and
  one complete row. The coercion loop skips the absent \<^verbatim>\<open>price\<close> column, but
  \<^verbatim>\<open>data.dropna(subset=numeric_columns)\<close> on line 42 names it and raises \<^verbatim>\<open>KeyError\<close>:
  the pipeline does not complete.
\<close>

theorem C1_absent_numeric_column_raises:
  "clean isspace lower parse no_price = Inl (KeyError [''price''])"
proof -
  have cols: "columns no_price = [''mileage'', ''year'', ''model'']"
    by (simp add: columns_def no_price_def)
  have "\<not> set numeric_columns \<subseteq> set (columns no_price)"
    by (simp add: cols numeric_columns_def)
  then have "clean isspace lower parse no_price
             = Inl (KeyError (filter (\<lambda>c. c \<notin> set (columns no_price)) numeric_columns))"
    by (rule clean_missing_numeric_column)
  then show ?thesis by (simp add: cols numeric_columns_def)
qed

lemma col_index_distinct: "distinct xs \<Longrightarrow> k < length xs \<Longrightarrow> col_index (xs ! k) xs = Some k"
proof (induction xs arbitrary: k)
  case Nil
  then show ?case by simp
next
  case (Cons x xs)
  then show ?case by (cases k) auto
qed

lemma nth_retype:
  "j < length sch \<Longrightarrow>
   retype ls dt sch ! j = (fst (sch ! j), if fst (sch ! j) \<in> set ls then dt else snd (sch ! j))"
  by (cases "sch ! j") (simp add: retype_def)

lemma length_retype: "length (retype ls dt sch) = length sch"
  by (simp add: retype_def)

lemma label_lists_disjoint: "l \<in> set numeric_columns \<Longrightarrow> l \<notin> set categorical_columns"
  by (auto simp: numeric_columns_def categorical_columns_def)

lemma out_cell:
  assumes "length r0 = length cols" "k < length cols"
  shows "normalize_row isspace lower cols (coerce_row parse cols r0) ! k =
           (if cols ! k \<in> set numeric_columns then to_numeric parse (r0 ! k)
            else if cols ! k \<in> set categorical_columns then str_lower lower (str_strip isspace (r0 ! k))
            else r0 ! k)"
proof -
  have len: "length (coerce_row parse cols r0) = length cols"
    using assms(1) by (simp add: coerce_row_def length_apply_row)
  have a: "coerce_row parse cols r0 ! k =
             (if cols ! k \<in> set numeric_columns then to_numeric parse (r0 ! k) else r0 ! k)"
    using assms by (simp add: coerce_row_def nth_apply_row)
  have b: "normalize_row isspace lower cols (coerce_row parse cols r0) ! k =
             (if cols ! k \<in> set categorical_columns
              then str_lower lower (str_strip isspace (coerce_row parse cols r0 ! k))
              else coerce_row parse cols r0 ! k)"
    unfolding normalize_row_def using len assms(2) by (rule nth_apply_row)
  show ?thesis
    using label_lists_disjoint [of "cols ! k"] by (auto simp: a b)
qed

lemma length_out_row:
  "length r0 = length cols \<Longrightarrow> length (normalize_row isspace lower cols (coerce_row parse cols r0)) = length cols"
  by (simp add: normalize_row_def coerce_row_def length_apply_row)

lemma subset_notnull_nth:
  assumes "subset_notnull t labels c" "distinct (columns t)" "k < length (columns t)"
    "columns t ! k \<in> set labels" "length c = length (columns t)"
  shows "c ! k \<noteq> NaN"
proof -
  have "col_index (columns t ! k) (columns t) = Some k"
    using assms(2,3) by (rule col_index_distinct)
  then have "\<not> isnull (cell_at c k)"
    using assms(1,4) by (auto simp: subset_notnull_def list_all_iff)
  then show ?thesis using assms(3,5) by (simp add: isnull_def cell_at_def)
qed

lemma to_numeric_is_num: "to_numeric parse c \<noteq> NaN \<Longrightarrow> is_number (to_numeric parse c)"
  by (cases c) (auto split: option.splits)

lemma clean_Inr_object:
  assumes ok: "clean isspace lower parse t = Inr (out, rep)"
    and dist: "distinct (columns t)"
    and l: "l \<in> set categorical_columns" "col_index l (columns t) = Some j"
  shows "snd (schema t ! j) = Object"
proof -
  let ?d2 = "dropna (drop_duplicates t)"
  let ?d3 = "coerce_numeric parse ?d2"
  have c2: "columns ?d2 = columns t"
    by (simp add: columns_def schema_dropna schema_drop_duplicates)
  have s3: "schema ?d3 = retype numeric_columns Numeric (schema t)"
    using schema_coerce_numeric [of ?d2 parse] dist c2
    by (simp add: schema_dropna schema_drop_duplicates)
  from ok obtain d4 where d4: "dropna_subset numeric_columns ?d3 = Inr d4"
    and d5: "normalize_categorical isspace lower categorical_columns d4 = Inr out"
    by (auto simp: clean_def Let_def split: sum.splits)
  have s4: "schema d4 = retype numeric_columns Numeric (schema t)"
    using dropna_subset_Inr [OF d4] s3 by simp
  then have c4: "columns d4 = columns t" by (simp add: columns_def map_fst_retype)
  have "snd (schema d4 ! j) = Object"
    using normalize_categorical_object [OF d5 distinct_label_lists(2) _ l(1)] dist c4 l(2) by simp
  moreover have j: "j < length (schema t)" "fst (schema t ! j) = l"
    using col_index_Some [OF l(2)] by (auto simp: columns_def)
  moreover have "l \<notin> set numeric_columns" using l(1) label_lists_disjoint by blast
  ultimately show ?thesis by (simp add: s4 nth_retype)
qed

lemma wf_frameD:
  assumes "wf_frame t"
  shows "distinct (columns t)"
    and "\<forall>r \<in> set (rows t). length r = length (schema t)"
    and "r \<in> set (rows t) \<Longrightarrow> k < length (schema t) \<Longrightarrow> cell_ok (snd (schema t ! k)) (r ! k)"
proof -
  show "distinct (columns t)" using assms by (simp add: wf_frame_def)
  show "\<forall>r \<in> set (rows t). length r = length (schema t)"
  proof
    fix r assume "r \<in> set (rows t)"
    then have "list_all2 cell_ok (map snd (schema t)) r" using assms by (simp add: wf_frame_def)
    then have "length (map snd (schema t)) = length r" by (rule list_all2_lengthD)
    then show "length r = length (schema t)" by simp
  qed
  show "cell_ok (snd (schema t ! k)) (r ! k)" if "r \<in> set (rows t)" "k < length (schema t)"
  proof -
    have "list_all2 cell_ok (map snd (schema t)) r" using assms that(1) by (simp add: wf_frame_def)
    moreover have "k < length (map snd (schema t))" using that(2) by simp
    ultimately have "cell_ok (map snd (schema t) ! k) (r ! k)"
      by (rule list_all2_nthD)
    then show ?thesis using that(2) by simp
  qed
qed

text \<open>Every row of a successful run comes from an input row with no missing cell that passed step 4.\<close>

lemma clean_source_row:
  assumes wf: "wf_frame t" and ok: "clean isspace lower parse t = Inr (out, rep)" and r: "r \<in> set (rows out)"
  obtains r0 where "r0 \<in> set (rows t)" "NaN \<notin> set r0"
    "subset_notnull t numeric_columns (coerce_row parse (columns t) r0)"
    "r = normalize_row isspace lower (columns t) (coerce_row parse (columns t) r0)"
proof -
  note w = wf_frameD [OF wf]
  have wide2: "\<forall>r \<in> set (rows (drop_duplicates t)). length r = length (schema (drop_duplicates t))"
    using w(2) by (simp add: drop_duplicates_def set_keep_first)
  have r2: "set (rows (dropna (drop_duplicates t))) = {r \<in> set (rows t). NaN \<notin> set r}"
    using rows_dropna [OF wide2] by (auto simp: rows_drop_duplicates set_keep_first)
  from clean_Inr(3) [OF ok w(1) w(2)] r
  obtain r0 where "r0 \<in> set (rows (dropna (drop_duplicates t)))"
    "subset_notnull t numeric_columns (coerce_row parse (columns t) r0)"
    "r = normalize_row isspace lower (columns t) (coerce_row parse (columns t) r0)"
    by auto
  then show ?thesis using r2 that by auto
qed

lemma clean_is_clean:
  assumes wf: "wf_frame t" and ok: "clean isspace lower parse t = Inr (out, rep)"
  shows "is_clean (\<lambda>v. \<exists>s. v = lower (strip isspace s)) out"
proof -
  let ?P = "\<lambda>v. \<exists>s. v = lower (strip isspace s)"
  note w = wf_frameD [OF wf]
  let ?cols = "columns t"
  let ?n = "length (schema t)"
  have n: "length ?cols = ?n" by (simp add: columns_def)
  have sch: "schema out = retype categorical_columns Object (retype numeric_columns Numeric (schema t))"
    using clean_Inr(2) [OF ok w(1) w(2)] .
  have cols: "columns out = ?cols" by (simp add: columns_def sch map_fst_retype)
  have len: "length (schema out) = ?n" by (simp add: sch length_retype)
  have dt: "snd (schema out ! j) =
              (if ?cols ! j \<in> set categorical_columns then Object
               else if ?cols ! j \<in> set numeric_columns then Numeric else snd (schema t ! j))"
    if "j < ?n" for j
    using that by (simp add: sch nth_retype length_retype columns_def)
  have cell: "length r = ?n \<and> (\<forall>k < ?n.
        r ! k \<noteq> NaN
        \<and> (?cols ! k \<in> set numeric_columns \<longrightarrow> is_number (r ! k))
        \<and> (?cols ! k \<in> set categorical_columns \<longrightarrow> is_str ?P (r ! k)))"
    if r: "r \<in> set (rows out)" for r
  proof -
    from clean_source_row [OF wf ok r] obtain r0 where r0: "r0 \<in> set (rows t)" "NaN \<notin> set r0"
      and valid: "subset_notnull t numeric_columns (coerce_row parse ?cols r0)"
      and req: "r = normalize_row isspace lower ?cols (coerce_row parse ?cols r0)"
      by blast
    have l0: "length r0 = length ?cols" using w(2) r0(1) n by simp
    have lc: "length (coerce_row parse ?cols r0) = length ?cols"
      using l0 by (simp add: coerce_row_def length_apply_row)
    have "r ! k \<noteq> NaN
        \<and> (?cols ! k \<in> set numeric_columns \<longrightarrow> is_number (r ! k))
        \<and> (?cols ! k \<in> set categorical_columns \<longrightarrow> is_str ?P (r ! k))"
      if k: "k < ?n" for k
    proof -
      have k': "k < length ?cols" using k n by simp
      have rk: "r ! k = (if ?cols ! k \<in> set numeric_columns then to_numeric parse (r0 ! k)
            else if ?cols ! k \<in> set categorical_columns then str_lower lower (str_strip isspace (r0 ! k))
            else r0 ! k)"
        unfolding req using l0 k' by (rule out_cell)
      have r0k: "r0 ! k \<noteq> NaN" using r0(2) l0 k' by (metis nth_mem)
      show ?thesis
      proof (cases "?cols ! k \<in> set numeric_columns")
        case True
        have "coerce_row parse ?cols r0 ! k \<noteq> NaN"
          using valid w(1) k' True lc by (rule subset_notnull_nth)
        then have "to_numeric parse (r0 ! k) \<noteq> NaN"
          using l0 k' True by (simp add: coerce_row_def nth_apply_row)
        then show ?thesis using True rk label_lists_disjoint [OF True]
          by (simp add: to_numeric_is_num)
      next
        case False
        show ?thesis
        proof (cases "?cols ! k \<in> set categorical_columns")
          case cat: True
          have "col_index (?cols ! k) ?cols = Some k" using w(1) k' by (rule col_index_distinct)
          then have "snd (schema t ! k) = Object"
            using clean_Inr_object [OF ok w(1) cat] by simp
          then have "cell_ok Object (r0 ! k)" using w(3) [OF r0(1) k] by simp
          then obtain s where s: "r0 ! k = Str s" using r0k by (cases "r0 ! k") auto
          have rk': "r ! k = Str (lower (strip isspace s))" using rk False cat s by simp
          then have "is_str ?P (r ! k)" by auto
          then show ?thesis using False rk' by simp
        next
          case other: False
          then show ?thesis using False rk r0k by simp
        qed
      qed
    qed
    moreover have "length r = ?n" unfolding req using l0 n by (simp add: length_out_row)
    ultimately show ?thesis by blast
  qed
  have wide: "\<forall>r \<in> set (rows out). length r = length (schema out) \<and> NaN \<notin> set r"
  proof
    fix r assume r: "r \<in> set (rows out)"
    from cell [OF r] have "length r = ?n" and "\<forall>k < length r. r ! k \<noteq> NaN" by auto
    then show "length r = length (schema out) \<and> NaN \<notin> set r"
      using len by (auto simp: in_set_conv_nth)
  qed
  have num: "case col_index l (columns out) of None \<Rightarrow> False
             | Some j \<Rightarrow> snd (schema out ! j) = Numeric \<and> (\<forall>r \<in> set (rows out). is_number (r ! j))"
    if l: "l \<in> set numeric_columns" for l
  proof -
    have "l \<in> set ?cols" using clean_Inr(1) [OF ok w(1) w(2)] l by blast
    then obtain j where j: "col_index l ?cols = Some j" using col_index_in by blast
    then have jn: "j < ?n" and cj: "?cols ! j = l" using col_index_Some [OF j] n by simp_all
    have "snd (schema out ! j) = Numeric"
      using dt [OF jn] cj l label_lists_disjoint [OF l] by simp
    moreover have "\<forall>r \<in> set (rows out). is_number (r ! j)"
      using cell jn cj l by blast
    ultimately show ?thesis using j cols by simp
  qed
  have cat: "case col_index l (columns out) of None \<Rightarrow> True
             | Some j \<Rightarrow> snd (schema out ! j) = Object \<and> (\<forall>r \<in> set (rows out). is_str ?P (r ! j))"
    if l: "l \<in> set categorical_columns" for l
  proof (cases "col_index l ?cols")
    case None
    then show ?thesis using cols by simp
  next
    case (Some j)
    then have jn: "j < ?n" and cj: "?cols ! j = l" using col_index_Some [OF Some] n by simp_all
    have "snd (schema out ! j) = Object" using dt [OF jn] cj l by simp
    moreover have "\<forall>r \<in> set (rows out). is_str ?P (r ! j)"
      using cell jn cj l by blast
    ultimately show ?thesis using Some cols by simp
  qed
  show ?thesis unfolding is_clean_def using wide num cat by blast
qed

lemma is_str_mono: "is_str P c \<Longrightarrow> (\<And>s. P s \<Longrightarrow> Q s) \<Longrightarrow> is_str Q c"
  by (cases c) simp_all

lemma is_clean_mono:
  assumes "is_clean P t" "\<And>s. P s \<Longrightarrow> Q s"
  shows "is_clean Q t"
proof -
  have cat: "case col_index l (columns t) of None \<Rightarrow> True
             | Some j \<Rightarrow> snd (schema t ! j) = Object \<and> (\<forall>r \<in> set (rows t). is_str Q (r ! j))"
    if l: "l \<in> set categorical_columns" for l
  proof (cases "col_index l (columns t)")
    case None
    then show ?thesis by simp
  next
    case (Some j)
    have "case col_index l (columns t) of None \<Rightarrow> True
          | Some j \<Rightarrow> snd (schema t ! j) = Object \<and> (\<forall>r \<in> set (rows t). is_str P (r ! j))"
      using assms(1) l by (simp add: is_clean_def)
    then have "snd (schema t ! j) = Object" "\<forall>r \<in> set (rows t). is_str P (r ! j)"
      using Some by simp_all
    then show ?thesis using Some is_str_mono [of P _ Q] assms(2) by auto
  qed
  show ?thesis
    unfolding is_clean_def using assms(1) cat by (simp add: is_clean_def)
qed

text \<open>
  When lower-casing is idempotent and puts no whitespace at an end, the categorical values
  of a successful run are trimmed and lower-case.
\<close>

lemma clean_is_normal:
  assumes "lower_ok isspace lower" "wf_frame t" "clean isspace lower parse t = Inr (out, rep)"
  shows "is_clean (is_normal isspace lower) out"
proof -
  have "is_clean (\<lambda>v. \<exists>s. v = lower (strip isspace s)) out"
    using assms(2,3) by (rule clean_is_clean)
  then show ?thesis
  proof (rule is_clean_mono)
    fix v assume "\<exists>s. v = lower (strip isspace s)"
    then show "is_normal isspace lower v" using is_normal_lower_strip [OF assms(1)] by auto
  qed
qed

lemma is_clean_rows_subset:
  assumes "is_clean P t" "set rs \<subseteq> set (rows t)"
  shows "is_clean P (t\<lparr>rows := rs\<rparr>)"
  using assms unfolding is_clean_def columns_def
  by (auto split: option.splits)

lemma dropna_id:
  assumes "\<forall>r \<in> set (rows t). length r = length (schema t) \<and> NaN \<notin> set r"
  shows "dropna t = t"
proof -
  have "filter (\<lambda>r. list_all (\<lambda>j. \<not> isnull (cell_at r j)) [0..<length (schema t)]) (rows t) = rows t"
    using assms by (simp add: notnull_row)
  then show ?thesis by (simp add: dropna_def)
qed

lemma isnull_sum_sum_zero:
  assumes "\<forall>r \<in> set (rows t). length r = length (schema t) \<and> NaN \<notin> set r"
  shows "isnull_sum_sum t = 0"
proof -
  have "isnull_sum_sum t = (\<Sum>r\<leftarrow>rows t. count_list r NaN)"
    unfolding isnull_sum_sum_def isnull_sum_def using assms by (simp add: isnull_sum_sum_rows)
  also have "\<dots> = 0" using assms by simp
  finally show ?thesis .
qed

lemma map_column_id:
  assumes "j < length (schema t)" "snd (schema t ! j) = dt"
    "\<forall>r \<in> set (rows t). f (cell_at r j) = r ! j"
  shows "map_column j dt f t = t"
proof -
  have "(schema t)[j := (fst (schema t ! j), dt)] = schema t"
    using assms(1,2) by (metis list_update_id prod.collapse)
  moreover have "map (\<lambda>r. r[j := f (cell_at r j)]) (rows t) = rows t"
    using assms(3) by (simp add: map_idI)
  ultimately show ?thesis by (simp add: map_column_def)
qed

lemma is_num_to_numeric: "is_number c \<Longrightarrow> to_numeric parse c = c"
  by (cases c) simp_all

lemma is_normal_str_fixed:
  "is_str (is_normal isspace lower) c \<Longrightarrow> str_strip isspace c = c \<and> str_lower lower c = c"
  by (cases c) (simp_all add: is_normal_fixed)

lemma is_cleanD:
  assumes "is_clean P t"
  shows "\<forall>r \<in> set (rows t). length r = length (schema t) \<and> NaN \<notin> set r"
    and "l \<in> set numeric_columns \<Longrightarrow> \<exists>j. col_index l (columns t) = Some j
            \<and> snd (schema t ! j) = Numeric \<and> (\<forall>r \<in> set (rows t). is_number (r ! j))"
    and "l \<in> set categorical_columns \<Longrightarrow> col_index l (columns t) = Some j \<Longrightarrow>
            snd (schema t ! j) = Object \<and> (\<forall>r \<in> set (rows t). is_str P (r ! j))"
proof -
  show "\<forall>r \<in> set (rows t). length r = length (schema t) \<and> NaN \<notin> set r"
    using assms by (simp add: is_clean_def)
  show "\<exists>j. col_index l (columns t) = Some j
            \<and> snd (schema t ! j) = Numeric \<and> (\<forall>r \<in> set (rows t). is_number (r ! j))"
    if "l \<in> set numeric_columns"
  proof -
    have "case col_index l (columns t) of None \<Rightarrow> False
          | Some j \<Rightarrow> snd (schema t ! j) = Numeric \<and> (\<forall>r \<in> set (rows t). is_number (r ! j))"
      using assms that by (simp add: is_clean_def)
    then show ?thesis by (cases "col_index l (columns t)") simp_all
  qed
  show "snd (schema t ! j) = Object \<and> (\<forall>r \<in> set (rows t). is_str P (r ! j))"
    if "l \<in> set categorical_columns" "col_index l (columns t) = Some j"
  proof -
    have "case col_index l (columns t) of None \<Rightarrow> True
          | Some j \<Rightarrow> snd (schema t ! j) = Object \<and> (\<forall>r \<in> set (rows t). is_str P (r ! j))"
      using assms that(1) by (simp add: is_clean_def)
    then show ?thesis using that(2) by simp
  qed
qed

lemma coerce_column_id:
  assumes "is_clean P t" "l \<in> set numeric_columns"
  shows "coerce_column parse t l = t"
proof -
  from is_cleanD(2) [OF assms] obtain j where j: "col_index l (columns t) = Some j"
    and dt: "snd (schema t ! j) = Numeric" and num: "\<forall>r \<in> set (rows t). is_number (r ! j)"
    by blast
  have jn: "j < length (schema t)" using col_index_Some [OF j] by (simp add: columns_def)
  have "\<forall>r \<in> set (rows t). to_numeric parse (cell_at r j) = r ! j"
    using num is_cleanD(1) [OF assms(1)] jn by (simp add: cell_at_def is_num_to_numeric)
  then have "map_column j Numeric (to_numeric parse) t = t"
    using jn dt by (intro map_column_id)
  then show ?thesis using j by (simp add: coerce_column_def)
qed

lemma coerce_numeric_id: "is_clean P t \<Longrightarrow> coerce_numeric parse t = t"
  by (simp add: coerce_numeric_def numeric_columns_def coerce_column_id)

lemma dropna_subset_id:
  assumes "is_clean P t"
  shows "dropna_subset numeric_columns t = Inr t"
proof -
  have present: "\<forall>l \<in> set numeric_columns. l \<in> set (columns t)"
  proof
    fix l assume "l \<in> set numeric_columns"
    then obtain j where "col_index l (columns t) = Some j"
      using is_cleanD(2) [OF assms] by blast
    then show "l \<in> set (columns t)" using col_index_None [of l "columns t"] by auto
  qed
  then have "filter (\<lambda>c. c \<notin> set (columns t)) numeric_columns = []"
    by (simp add: filter_empty_conv)
  moreover have "subset_notnull t numeric_columns r" if "r \<in> set (rows t)" for r
    unfolding subset_notnull_def list_all_iff
  proof
    fix l assume l: "l \<in> set numeric_columns"
    from is_cleanD(2) [OF assms l] obtain j where j: "col_index l (columns t) = Some j"
      and num: "\<forall>r \<in> set (rows t). is_number (r ! j)" by blast
    have jn: "j < length (schema t)" using col_index_Some [OF j] by (simp add: columns_def)
    have "is_number (r ! j)" "length r = length (schema t)"
      using num that is_cleanD(1) [OF assms] by simp_all
    then have "\<not> isnull (cell_at r j)" using jn by (auto simp: isnull_def cell_at_def)
    then show "case col_index l (columns t) of None \<Rightarrow> True | Some j \<Rightarrow> \<not> isnull (cell_at r j)"
      using j by simp
  qed
  then have "filter (subset_notnull t numeric_columns) (rows t) = rows t" by simp
  ultimately show ?thesis by (simp add: dropna_subset_def)
qed

lemma normalize_categorical_id:
  assumes "is_clean (is_normal isspace lower) t" "set ls \<subseteq> set categorical_columns"
  shows "normalize_categorical isspace lower ls t = Inr t"
  using assms(2)
proof (induction ls)
  case Nil
  then show ?case by simp
next
  case (Cons l ls)
  then have l: "l \<in> set categorical_columns" and ih: "normalize_categorical isspace lower ls t = Inr t" by simp_all
  show ?case
  proof (cases "col_index l (columns t)")
    case None
    then show ?thesis using ih by simp
  next
    case (Some j)
    from is_cleanD(3) [OF assms(1) l Some]
    have dt: "snd (schema t ! j) = Object" and norm: "\<forall>r \<in> set (rows t). is_str (is_normal isspace lower) (r ! j)"
      by simp_all
    have jn: "j < length (schema t)" using col_index_Some [OF Some] by (simp add: columns_def)
    have cell: "\<forall>r \<in> set (rows t). cell_at r j = r ! j"
      using is_cleanD(1) [OF assms(1)] jn by (simp add: cell_at_def)
    have fixed: "str_strip isspace (cell_at r j) = r ! j \<and> str_lower lower (cell_at r j) = r ! j"
      if "r \<in> set (rows t)" for r
      using that norm cell is_normal_str_fixed [of isspace lower "r ! j"] by simp
    have "map_column j Object (str_strip isspace) t = t"
      using jn dt fixed by (intro map_column_id) simp_all
    moreover have "map_column j Object (str_lower lower) t = t"
      using jn dt fixed by (intro map_column_id) simp_all
    ultimately show ?thesis using Some dt ih by simp
  qed
qed

text \<open>Run on a clean table, the pipeline only removes the rows that repeat an earlier one.\<close>

lemma clean_rerun:
  assumes "is_clean (is_normal isspace lower) t"
  shows "clean isspace lower parse t =
           Inr (drop_duplicates t,
                \<lparr>duplicates_removed = length (rows t) - length (rows (drop_duplicates t)),
                 missing_count = 0, invalid_rows_removed = 0\<rparr>)"
proof -
  let ?d1 = "drop_duplicates t"
  have c1: "is_clean (is_normal isspace lower) ?d1"
    unfolding drop_duplicates_def using assms
    by (rule is_clean_rows_subset) (simp add: set_keep_first)
  note w1 = is_cleanD(1) [OF c1]
  have "isnull_sum_sum ?d1 = 0" using w1 by (rule isnull_sum_sum_zero)
  moreover have "dropna ?d1 = ?d1" using w1 by (rule dropna_id)
  moreover have "coerce_numeric parse ?d1 = ?d1" using c1 by (rule coerce_numeric_id)
  moreover have "dropna_subset numeric_columns ?d1 = Inr ?d1" using c1 by (rule dropna_subset_id)
  moreover have "normalize_categorical isspace lower categorical_columns ?d1 = Inr ?d1"
    using c1 by (rule normalize_categorical_id) simp
  ultimately show ?thesis by (simp add: clean_def Let_def)
qed

lemma wf_listings: "wf_frame listings"
  by (simp add: wf_frame_def listings_def columns_def)

text \<open>
  A year that reads as an infinity is a number for the pipeline: the row is kept, with the
  infinity in it, and is not counted as invalid.
\<close>

lemma inf_year_run:
  "clean latin1_isspace latin1_lower parse_xnum inf_year =
     Inr (inf_year_clean, \<lparr>duplicates_removed = 0, missing_count = 0, invalid_rows_removed = 0\<rparr>)"
proof -
  define sch where "sch = schema inf_year"
  define sch' where "sch' = schema inf_year_clean"
  define r1 :: "(char, xnum) cell list" where "r1 = [Num (Finite 100000), Num (Finite 12), Str ''inf'']"
  define c1 :: "(char, xnum) cell list" where "c1 = [Num (Finite 100000), Num (Finite 12), Num PosInf]"
  have l: "inf_year = \<lparr>schema = sch, rows = [r1]\<rparr>"
    by (simp add: inf_year_def sch_def r1_def)
  have s1: "drop_duplicates inf_year = \<lparr>schema = sch, rows = [r1]\<rparr>"
    by (simp add: l drop_duplicates_def)
  have len: "length sch = 3" by (simp add: sch_def inf_year_def)
  have u3: "[0..<3] = [0, 1, 2]" by code_simp
  have s2: "isnull_sum_sum \<lparr>schema = sch, rows = [r1]\<rparr> = 0"
    by (simp add: isnull_sum_sum_def isnull_sum_def len u3 cell_at_def isnull_def r1_def)
  have s3: "dropna \<lparr>schema = sch, rows = [r1]\<rparr> = \<lparr>schema = sch, rows = [r1]\<rparr>"
    by (simp add: dropna_def len u3 cell_at_def isnull_def r1_def)
  have cols: "map fst sch = [''price'', ''mileage'', ''year'']"
    by (simp add: sch_def inf_year_def)
  have cols': "map fst sch' = [''price'', ''mileage'', ''year'']"
    by (simp add: sch'_def inf_year_clean_def)
  have p: "parse_xnum ''inf'' = Some PosInf" by (simp add: parse_xnum_def)
  have s4: "coerce_numeric parse_xnum \<lparr>schema = sch, rows = [r1]\<rparr> = \<lparr>schema = sch', rows = [c1]\<rparr>"
    by (simp add: coerce_numeric_def numeric_columns_def coerce_column_def columns_def cols
        map_column_def cell_at_def p r1_def c1_def sch_def sch'_def inf_year_def inf_year_clean_def)
  have s5: "dropna_subset numeric_columns \<lparr>schema = sch', rows = [c1]\<rparr>
            = Inr \<lparr>schema = sch', rows = [c1]\<rparr>"
    by (simp add: dropna_subset_def numeric_columns_def columns_def cols' subset_notnull_def
        cell_at_def isnull_def c1_def)
  have s6: "normalize_categorical latin1_isspace latin1_lower categorical_columns
              \<lparr>schema = sch', rows = [c1]\<rparr>
            = Inr \<lparr>schema = sch', rows = [c1]\<rparr>"
    by (simp add: categorical_columns_def columns_def cols')
  have fin: "\<lparr>schema = sch', rows = [c1]\<rparr> = inf_year_clean"
    by (simp add: sch'_def c1_def inf_year_clean_def)
  have n: "length (rows inf_year) = 1" by (simp add: l)
  show ?thesis
    unfolding fin [symmetric] clean_def Let_def n s1 by (simp add: s2 s3 s4 s5 s6)
qed

text \<open>
  C2, as the code has it. Every row of a successful run on a well-formed table has a
  value in every column, a number that is not \<open>NaN\<close> under \<^verbatim>\<open>price\<close>, \<^verbatim>\<open>mileage\<close> and \<^verbatim>\<open>year\<close>
  (any value of the number type, so an infinity where the grammar reads one), and under
  each categorical column that exists a string with no whitespace at either end that
  lower-casing leaves as it is. This holds for every character type, every whitespace
  predicate and every lower-casing function that is idempotent and puts no whitespace at
  an end, as \<^verbatim>\<open>str.lower\<close> is. Duplicates are removed on the raw rows, before coercion and
  normalisation: the output rows are the cleaned images, in order, of pairwise distinct
  input rows.
\<close>

theorem C2_rows_after_cleaning:
  assumes "lower_ok isspace lower" "wf_frame t" "clean isspace lower parse t = Inr (out, rep)"
  shows "(\<forall>r \<in> set (rows out).
            length r = length (columns out) \<and> NaN \<notin> set r
            \<and> (\<forall>l \<in> set numeric_columns.
                  \<exists>j x. col_index l (columns out) = Some j \<and> r ! j = Num x)
            \<and> (\<forall>l \<in> set categorical_columns. \<forall>j. col_index l (columns out) = Some j \<longrightarrow>
                  (\<exists>s. r ! j = Str s \<and> trimmed isspace s \<and> lower_case lower s)))
       \<and> (\<exists>ys. distinct ys \<and> subseq ys (rows t)
             \<and> rows out = map (\<lambda>r. normalize_row isspace lower (columns t) (coerce_row parse (columns t) r)) ys)"
proof
  have c: "is_clean (is_normal isspace lower) out" using assms by (rule clean_is_normal)
  show "\<forall>r \<in> set (rows out).
            length r = length (columns out) \<and> NaN \<notin> set r
            \<and> (\<forall>l \<in> set numeric_columns.
                  \<exists>j x. col_index l (columns out) = Some j \<and> r ! j = Num x)
            \<and> (\<forall>l \<in> set categorical_columns. \<forall>j. col_index l (columns out) = Some j \<longrightarrow>
                  (\<exists>s. r ! j = Str s \<and> trimmed isspace s \<and> lower_case lower s))"
  proof (intro ballI conjI allI impI)
    fix r assume r: "r \<in> set (rows out)"
    show "length r = length (columns out)" using is_cleanD(1) [OF c] r by (simp add: columns_def)
    show "NaN \<notin> set r" using is_cleanD(1) [OF c] r by simp
  next
    fix r l assume r: "r \<in> set (rows out)" and l: "l \<in> set numeric_columns"
    from is_cleanD(2) [OF c l] obtain j where j: "col_index l (columns out) = Some j"
      and "\<forall>r \<in> set (rows out). is_number (r ! j)" by blast
    then have "is_number (r ! j)" using r by simp
    then obtain x where "r ! j = Num x" by (cases "r ! j") simp_all
    then show "\<exists>j x. col_index l (columns out) = Some j \<and> r ! j = Num x" using j by blast
  next
    fix r l j assume r: "r \<in> set (rows out)" and l: "l \<in> set categorical_columns"
      and j: "col_index l (columns out) = Some j"
    from is_cleanD(3) [OF c l j] r have "is_str (is_normal isspace lower) (r ! j)" by simp
    then show "\<exists>s. r ! j = Str s \<and> trimmed isspace s \<and> lower_case lower s" by (cases "r ! j") (simp_all add: is_normal_def)
  qed
next
  note w = wf_frameD [OF assms(2)]
  let ?d1 = "drop_duplicates t"
  let ?co = "coerce_row parse (columns t)"
  let ?ys = "filter (subset_notnull t numeric_columns \<circ> ?co) (rows (dropna ?d1))"
  have wide1: "\<forall>r \<in> set (rows ?d1). length r = length (schema ?d1)"
    using w(2) by (simp add: drop_duplicates_def set_keep_first)
  have r2: "rows (dropna ?d1) = filter (\<lambda>r. NaN \<notin> set r) (keep_first [] (rows t))"
    using rows_dropna [OF wide1] by (simp add: rows_drop_duplicates)
  have "distinct ?ys" by (simp add: r2 distinct_keep_first)
  moreover have "subseq (rows (dropna ?d1)) (rows t)"
    using subseq_dropna [of ?d1] subseq_drop_duplicates [of t] by (rule subseq_order.trans)
  then have "subseq ?ys (rows t)"
    using subseq_filter_left [of "subset_notnull t numeric_columns \<circ> ?co" "rows (dropna ?d1)"]
    by (rule subseq_order.trans [rotated])
  moreover have "rows out = map (\<lambda>r. normalize_row isspace lower (columns t) (?co r)) ?ys"
    using clean_Inr(3) [OF assms(3) w(1) w(2)] by (simp add: filter_map comp_def)
  ultimately show "\<exists>ys. distinct ys \<and> subseq ys (rows t)
             \<and> rows out = map (\<lambda>r. normalize_row isspace lower (columns t) (?co r)) ys"
    by blast
qed

text \<open>
  The claim as stated fails: the first and the fifth listing differ only in case and
  spacing, so both survive deduplication and come out as the same row.
\<close>

theorem C2_counterexample:
  "wf_frame listings
   \<and> clean latin1_isspace latin1_lower parse_decimal listings =
       Inr (listings_clean, \<lparr>duplicates_removed = 1, missing_count = 2, invalid_rows_removed = 1\<rparr>)
   \<and> rows listings_clean ! 0 = rows listings_clean ! 1
   \<and> \<not> distinct (rows listings_clean)"
  using wf_listings listings_run by (simp add: listings_clean_def)

theorem C2_witness:
  "lower_ok latin1_isspace latin1_lower \<and> wf_frame listings
   \<and> clean latin1_isspace latin1_lower parse_decimal listings =
       Inr (listings_clean, \<lparr>duplicates_removed = 1, missing_count = 2, invalid_rows_removed = 1\<rparr>)
   \<and> length (rows listings_clean ! 0) = length (columns listings_clean)
   \<and> NaN \<notin> set (rows listings_clean ! 0)
   \<and> (\<exists>j x. col_index ''year'' (columns listings_clean) = Some j \<and> rows listings_clean ! 0 ! j = Num x)
   \<and> (\<exists>s. rows listings_clean ! 0 ! 3 = Str s \<and> trimmed latin1_isspace s \<and> lower_case latin1_lower s)"
proof -
  note c2 = C2_rows_after_cleaning [OF lower_ok_latin1 wf_listings listings_run, THEN conjunct1, rule_format]
  have r: "rows listings_clean ! 0 \<in> set (rows listings_clean)"
    by (simp add: listings_clean_def)
  have y: "''year'' \<in> set numeric_columns" by (simp add: numeric_columns_def)
  have m: "''model'' \<in> set categorical_columns" by (simp add: categorical_columns_def)
  have j: "col_index ''model'' (columns listings_clean) = Some 3"
    by (simp add: columns_def listings_clean_def)
  note a = c2 [OF r]
  have "length (rows listings_clean ! 0) = length (columns listings_clean)"
    using a by (rule conjunct1)
  moreover have "NaN \<notin> set (rows listings_clean ! 0)"
    using a [THEN conjunct2] by (rule conjunct1)
  moreover have "\<exists>j x. col_index ''year'' (columns listings_clean) = Some j \<and> rows listings_clean ! 0 ! j = Num x"
    using a [THEN conjunct2, THEN conjunct2, THEN conjunct1, rule_format, OF y] .
  moreover have "\<exists>s. rows listings_clean ! 0 ! 3 = Str s \<and> trimmed latin1_isspace s \<and> lower_case latin1_lower s"
    using a [THEN conjunct2, THEN conjunct2, THEN conjunct2, rule_format, OF m j] .
  ultimately show ?thesis using lower_ok_latin1 wf_listings listings_run by simp
qed

lemma keep_first_distinct: "distinct xs \<Longrightarrow> set xs \<inter> set seen = {} \<Longrightarrow> keep_first seen xs = xs"
  by (induction xs arbitrary: seen) auto

lemma drop_duplicates_distinct: "distinct (rows t) \<Longrightarrow> drop_duplicates t = t"
  by (simp add: drop_duplicates_def keep_first_distinct)

lemma wf_aab: "wf_frame aab"
  by (simp add: wf_frame_def aab_def columns_def)

text \<open>
  C7, as the code has it. A second run on the output of a successful run raises nothing,
  finds no missing value and no invalid row, and changes nothing but the rows that repeat
  an earlier row, which it removes. When the clean table has no two equal rows the second
  run returns it unchanged. This holds for every character type, whitespace predicate and
  lower-casing function that is idempotent and puts no whitespace at an end, as
  \<^verbatim>\<open>str.lower\<close> is, and for any two number grammars.
\<close>

theorem C7_second_run_on_clean_table:
  assumes "lower_ok isspace lower" "wf_frame t" "clean isspace lower parse t = Inr (out, rep)"
  shows "clean isspace lower parse' out =
           Inr (drop_duplicates out,
                \<lparr>duplicates_removed = length (rows out) - length (rows (drop_duplicates out)),
                 missing_count = 0, invalid_rows_removed = 0\<rparr>)
       \<and> (distinct (rows out) \<longrightarrow>
            clean isspace lower parse' out =
              Inr (out, \<lparr>duplicates_removed = 0, missing_count = 0, invalid_rows_removed = 0\<rparr>))"
proof -
  have "is_clean (is_normal isspace lower) out" using assms by (rule clean_is_normal)
  then have run: "clean isspace lower parse' out =
           Inr (drop_duplicates out,
                \<lparr>duplicates_removed = length (rows out) - length (rows (drop_duplicates out)),
                 missing_count = 0, invalid_rows_removed = 0\<rparr>)"
    by (rule clean_rerun)
  then show ?thesis by (simp add: drop_duplicates_distinct)
qed

text \<open>
  The claim as stated fails: the clean table of the five listings holds the same row
  twice, and a second run removes one of the two.
\<close>

theorem C7_counterexample:
  "clean latin1_isspace latin1_lower parse_decimal listings =
       Inr (listings_clean, \<lparr>duplicates_removed = 1, missing_count = 2, invalid_rows_removed = 1\<rparr>)
   \<and> clean latin1_isspace latin1_lower parse_decimal listings_clean =
       Inr (listings_clean\<lparr>rows := [[Num 100000, Num 12, Num 2015, Str ''civic'', Str ''lahore'']]\<rparr>,
            \<lparr>duplicates_removed = 1, missing_count = 0, invalid_rows_removed = 0\<rparr>)
   \<and> length (rows (listings_clean\<lparr>rows := [[Num 100000, Num 12, Num 2015, Str ''civic'', Str ''lahore'']]\<rparr>))
       \<noteq> length (rows listings_clean)"
proof -
  have "is_clean (is_normal latin1_isspace latin1_lower) listings_clean"
    using lower_ok_latin1 wf_listings listings_run by (rule clean_is_normal)
  then have "clean latin1_isspace latin1_lower parse_decimal listings_clean =
           Inr (drop_duplicates listings_clean,
                \<lparr>duplicates_removed = length (rows listings_clean) - length (rows (drop_duplicates listings_clean)),
                 missing_count = 0, invalid_rows_removed = 0\<rparr>)"
    by (rule clean_rerun)
  moreover have "drop_duplicates listings_clean =
      listings_clean\<lparr>rows := [[Num 100000, Num 12, Num 2015, Str ''civic'', Str ''lahore'']]\<rparr>"
    by (simp add: drop_duplicates_def listings_clean_def)
  moreover have "length (rows listings_clean) = 2" by (simp add: listings_clean_def)
  ultimately show ?thesis using listings_run by simp
qed

theorem C7_witness:
  "lower_ok latin1_isspace latin1_lower \<and> wf_frame aab
   \<and> clean latin1_isspace latin1_lower parse_decimal aab =
       Inr (aab\<lparr>rows := [[Num 100000, Num 12, Num 2015], [Num 250000, Num 9, Num 2018]]\<rparr>,
            \<lparr>duplicates_removed = 1, missing_count = 0, invalid_rows_removed = 0\<rparr>)
   \<and> distinct (rows (aab\<lparr>rows := [[Num 100000, Num 12, Num 2015], [Num 250000, Num 9, Num 2018]]\<rparr>))
   \<and> clean latin1_isspace latin1_lower parse_decimal (aab\<lparr>rows := [[Num 100000, Num 12, Num 2015], [Num 250000, Num 9, Num 2018]]\<rparr>) =
       Inr (aab\<lparr>rows := [[Num 100000, Num 12, Num 2015], [Num 250000, Num 9, Num 2018]]\<rparr>,
            \<lparr>duplicates_removed = 0, missing_count = 0, invalid_rows_removed = 0\<rparr>)"
proof -
  let ?out = "aab\<lparr>rows := [[Num 100000, Num 12, Num 2015], [Num 250000, Num 9, Num 2018]]\<rparr>"
  note c7 = C7_second_run_on_clean_table [where t = aab and parse = parse_decimal
      and parse' = parse_decimal, OF lower_ok_latin1 wf_aab aab_run, THEN conjunct2, rule_format]
  have d: "distinct (rows ?out)" by simp
  have "clean latin1_isspace latin1_lower parse_decimal ?out =
       Inr (?out, \<lparr>duplicates_removed = 0, missing_count = 0, invalid_rows_removed = 0\<rparr>)"
    using d by (rule c7)
  then show ?thesis using lower_ok_latin1 wf_aab aab_run [where isspace = latin1_isspace and lower = latin1_lower and parse = parse_decimal] d by simp
qed

lemma unparseable_iff:
  assumes "length r = length cols"
  shows "unparseable parse cols r \<longleftrightarrow>
         (\<exists>k < length cols. cols ! k \<in> set numeric_columns \<and> (\<exists>s. r ! k = Str s \<and> parse s = None))"
proof
  assume "unparseable parse cols r"
  then obtain c v where cv: "(c, v) \<in> set (zip cols r)" "c \<in> set numeric_columns"
    and v: "case v of Str s \<Rightarrow> parse s = None | _ \<Rightarrow> False"
    by (auto simp: unparseable_def list_ex_iff)
  from cv(1) obtain k where k: "k < length cols" "cols ! k = c" "r ! k = v"
    using assms by (auto simp: in_set_zip)
  from v obtain s where "v = Str s" "parse s = None" by (cases v) simp_all
  then show "\<exists>k < length cols. cols ! k \<in> set numeric_columns \<and> (\<exists>s. r ! k = Str s \<and> parse s = None)"
    using k cv(2) by blast
next
  assume "\<exists>k < length cols. cols ! k \<in> set numeric_columns \<and> (\<exists>s. r ! k = Str s \<and> parse s = None)"
  then obtain k s where k: "k < length cols" "cols ! k \<in> set numeric_columns"
    "r ! k = Str s" "parse s = None" by blast
  have "(cols ! k, r ! k) \<in> set (zip cols r)"
    using k(1) assms by (auto simp: in_set_zip)
  then show "unparseable parse cols r"
    unfolding unparseable_def list_ex_iff using k(2,3,4) by force
qed

lemma valid_iff_parseable:
  assumes dist: "distinct (columns t)" and len: "length r = length (columns t)"
    and nn: "NaN \<notin> set r"
  shows "subset_notnull t numeric_columns (coerce_row parse (columns t) r)
         \<longleftrightarrow> \<not> unparseable parse (columns t) r"
proof -
  let ?cols = "columns t"
  let ?c = "coerce_row parse ?cols r"
  have lc: "length ?c = length ?cols" using len by (simp add: coerce_row_def length_apply_row)
  have ck: "?c ! k = (if ?cols ! k \<in> set numeric_columns then to_numeric parse (r ! k) else r ! k)"
    if "k < length ?cols" for k
    using that len by (simp add: coerce_row_def nth_apply_row)
  show ?thesis
  proof
    assume valid: "subset_notnull t numeric_columns ?c"
    show "\<not> unparseable parse ?cols r"
    proof
      assume "unparseable parse ?cols r"
      then obtain k s where k: "k < length ?cols" "?cols ! k \<in> set numeric_columns"
        "r ! k = Str s" "parse s = None"
        using unparseable_iff [OF len] by blast
      have "?c ! k \<noteq> NaN" using valid dist k(1,2) lc by (rule subset_notnull_nth)
      then show False using ck [OF k(1)] k(2,3,4) by simp
    qed
  next
    assume ok: "\<not> unparseable parse ?cols r"
    show "subset_notnull t numeric_columns ?c"
      unfolding subset_notnull_def list_all_iff
    proof
      fix l assume l: "l \<in> set numeric_columns"
      show "case col_index l ?cols of None \<Rightarrow> True | Some j \<Rightarrow> \<not> isnull (cell_at ?c j)"
      proof (cases "col_index l ?cols")
        case None
        then show ?thesis by simp
      next
        case (Some j)
        then have j: "j < length ?cols" "?cols ! j = l" using col_index_Some by blast+
        have rj: "r ! j \<noteq> NaN" using nn j(1) len by (metis nth_mem)
        have "to_numeric parse (r ! j) \<noteq> NaN"
        proof (cases "r ! j")
          case NaN
          then show ?thesis using rj by simp
        next
          case (Num x)
          then show ?thesis by simp
        next
          case (Str s)
          have "parse s \<noteq> None"
          proof
            assume "parse s = None"
            then have "\<exists>k < length ?cols. ?cols ! k \<in> set numeric_columns
                        \<and> (\<exists>s. r ! k = Str s \<and> parse s = None)"
              using j l Str by blast
            then show False using ok unparseable_iff [OF len, of parse] by simp
          qed
          then show ?thesis using Str by auto
        qed
        then have "?c ! j \<noteq> NaN" using ck [OF j(1)] j(2) l by simp
        then show ?thesis using Some j(1) lc by (simp add: isnull_def cell_at_def)
      qed
    qed
  qed
qed

lemma wf_abc_missing: "wf_frame abc_missing"
  by (simp add: wf_frame_def abc_missing_def columns_def)

lemma abc_missing_run:
  "clean latin1_isspace latin1_lower parse_decimal abc_missing =
     Inr (abc_missing_clean, \<lparr>duplicates_removed = 0, missing_count = 1, invalid_rows_removed = 0\<rparr>)"
proof -
  define sch where "sch = schema abc_missing"
  define r1 :: "(char, rat) cell list" where "r1 = [Num 100000, NaN, Str ''abc'']"
  define r2 :: "(char, rat) cell list" where "r2 = [Num 200000, Num 10, Str ''2016'']"
  define c2 :: "(char, rat) cell list" where "c2 = [Num 200000, Num 10, Num 2016]"
  define sch' where "sch' = schema abc_missing_clean"
  have l: "abc_missing = \<lparr>schema = sch, rows = [r1, r2]\<rparr>"
    by (simp add: abc_missing_def sch_def r1_def r2_def)
  have ne: "r1 \<noteq> r2" by (simp add: r1_def r2_def)
  have s1: "drop_duplicates abc_missing = \<lparr>schema = sch, rows = [r1, r2]\<rparr>"
    using ne by (simp add: l drop_duplicates_def)
  have len: "length sch = 3" by (simp add: sch_def abc_missing_def)
  have u3: "[0..<3] = [0, 1, 2]" by code_simp
  have s2: "isnull_sum_sum \<lparr>schema = sch, rows = [r1, r2]\<rparr> = 1"
    by (simp add: isnull_sum_sum_def isnull_sum_def len u3 cell_at_def isnull_def r1_def r2_def)
  have s3: "dropna \<lparr>schema = sch, rows = [r1, r2]\<rparr> = \<lparr>schema = sch, rows = [r2]\<rparr>"
    by (simp add: dropna_def len u3 cell_at_def isnull_def r1_def r2_def)
  have cols: "map fst sch = [''price'', ''mileage'', ''year'']"
    by (simp add: sch_def abc_missing_def)
  have cols': "map fst sch' = [''price'', ''mileage'', ''year'']"
    by (simp add: sch'_def abc_missing_clean_def)
  have s4: "coerce_numeric parse_decimal \<lparr>schema = sch, rows = [r2]\<rparr> = \<lparr>schema = sch', rows = [c2]\<rparr>"
    by (simp add: coerce_numeric_def numeric_columns_def coerce_column_def columns_def cols
        map_column_def cell_at_def parse_decimal_examples r2_def c2_def
        sch_def sch'_def abc_missing_def abc_missing_clean_def)
  have s5: "dropna_subset numeric_columns \<lparr>schema = sch', rows = [c2]\<rparr>
            = Inr \<lparr>schema = sch', rows = [c2]\<rparr>"
    by (simp add: dropna_subset_def numeric_columns_def columns_def cols' subset_notnull_def
        cell_at_def isnull_def c2_def)
  have s6: "normalize_categorical latin1_isspace latin1_lower categorical_columns
              \<lparr>schema = sch', rows = [c2]\<rparr>
            = Inr \<lparr>schema = sch', rows = [c2]\<rparr>"
    by (simp add: categorical_columns_def columns_def cols')
  have fin: "\<lparr>schema = sch', rows = [c2]\<rparr> = abc_missing_clean"
    by (simp add: sch'_def c2_def abc_missing_clean_def)
  have n: "length (rows abc_missing) = 2" by (simp add: l)
  show ?thesis
    unfolding fin [symmetric] clean_def Let_def n s1 by (simp add: s2 s3 s4 s5 s6)
qed

text \<open>
  C4 as stated fails: a value that does not parse is coerced only if its row reaches the
  coercion step. The first of the two listings below has the year \<^verbatim>\<open>abc\<close> and no mileage:
  it is removed by \<^verbatim>\<open>dropna()\<close> on line 31, before the coercion, and its missing cell is
  counted in the missing-value count; the count of invalid rows is 0.
\<close>

theorem C4_counterexample:
  "wf_frame abc_missing
   \<and> set numeric_columns \<subseteq> set (columns abc_missing)
   \<and> columns abc_missing ! 2 = ''year''
   \<and> rows abc_missing ! 0 ! 2 = Str ''abc'' \<and> parse_decimal ''abc'' = None
   \<and> unparseable parse_decimal (columns abc_missing) (rows abc_missing ! 0)
   \<and> rows (dropna (drop_duplicates abc_missing)) = [rows abc_missing ! 1]
   \<and> clean latin1_isspace latin1_lower parse_decimal abc_missing =
       Inr (abc_missing_clean, \<lparr>duplicates_removed = 0, missing_count = 1, invalid_rows_removed = 0\<rparr>)"
proof -
  have cols: "columns abc_missing = [''price'', ''mileage'', ''year'']"
    by (simp add: columns_def abc_missing_def)
  have "unparseable parse_decimal (columns abc_missing) (rows abc_missing ! 0)"
    unfolding cols by (simp add: unparseable_def numeric_columns_def abc_missing_def parse_decimal_examples)
  moreover have "rows (dropna (drop_duplicates abc_missing)) = [rows abc_missing ! 1]"
  proof -
    have u3: "[0..<3] = [0, 1, 2]" by code_simp
    show ?thesis
      by (simp add: dropna_def drop_duplicates_def abc_missing_def u3 cell_at_def isnull_def)
  qed
  moreover have "set numeric_columns \<subseteq> set (columns abc_missing)"
    by (simp add: cols numeric_columns_def)
  moreover have "columns abc_missing ! 2 = ''year''" by (simp add: cols)
  moreover have "rows abc_missing ! 0 ! 2 = Str ''abc''" by (simp add: abc_missing_def)
  ultimately show ?thesis
    using wf_abc_missing abc_missing_run by (simp add: parse_decimal_examples)
qed

text \<open>
  C4, as the code has it. Take a well-formed table that has the columns \<^verbatim>\<open>price\<close>,
  \<^verbatim>\<open>mileage\<close> and \<^verbatim>\<open>year\<close>. The rows that reach the coercion step are the first
  occurrences of the rows without a missing cell. Coercion is a total function and the
  removal of invalid rows raises nothing. In a row that reaches the coercion, a string
  under a numeric label that does not parse becomes \<open>NaN\<close>; the rows removed by step 4 are
  exactly the rows that reach the coercion and hold such a string, and the count of
  invalid rows is their number. Such a row has no missing cell of its own, so it adds
  nothing to the count of missing values, which is taken from the cells before coercion.
\<close>

theorem C4_unparseable_values_are_invalid_rows:
  assumes "wf_frame t" "set numeric_columns \<subseteq> set (columns t)"
  shows "rows (dropna (drop_duplicates t)) = filter (\<lambda>r. NaN \<notin> set r) (keep_first [] (rows t))
       \<and> set (rows (dropna (drop_duplicates t))) = {r \<in> set (rows t). NaN \<notin> set r}
       \<and> (\<exists>d4. dropna_subset numeric_columns (coerce_numeric parse (dropna (drop_duplicates t))) = Inr d4
            \<and> rows d4 = map (coerce_row parse (columns t))
                 (filter (\<lambda>r. \<not> unparseable parse (columns t) r) (rows (dropna (drop_duplicates t))))
            \<and> length (rows (coerce_numeric parse (dropna (drop_duplicates t)))) - length (rows d4)
                = length (filter (unparseable parse (columns t)) (rows (dropna (drop_duplicates t)))))
       \<and> rows (coerce_numeric parse (dropna (drop_duplicates t)))
           = map (coerce_row parse (columns t)) (rows (dropna (drop_duplicates t)))
       \<and> (\<forall>r \<in> set (rows (dropna (drop_duplicates t))). \<forall>k s.
             k < length (columns t) \<and> columns t ! k \<in> set numeric_columns
             \<and> r ! k = Str s \<and> parse s = None \<longrightarrow>
               coerce_row parse (columns t) r ! k = NaN
               \<and> unparseable parse (columns t) r \<and> count_list r NaN = 0)
       \<and> (\<forall>out rep. clean isspace lower parse t = Inr (out, rep) \<longrightarrow>
             invalid_rows_removed rep
                = length (filter (unparseable parse (columns t)) (rows (dropna (drop_duplicates t))))
             \<and> missing_count rep = (\<Sum>r\<leftarrow>rows (drop_duplicates t). count_list r NaN))"
proof -
  note w = wf_frameD [OF assms(1)]
  let ?cols = "columns t"
  let ?d1 = "drop_duplicates t"
  let ?d2 = "dropna ?d1"
  let ?d3 = "coerce_numeric parse ?d2"
  let ?co = "coerce_row parse ?cols"
  let ?bad = "unparseable parse ?cols"
  have wide1: "\<forall>r \<in> set (rows ?d1). length r = length (schema ?d1)"
    using w(2) by (simp add: drop_duplicates_def set_keep_first)
  have r2: "rows ?d2 = filter (\<lambda>r. NaN \<notin> set r) (rows ?d1)"
    using wide1 by (rule rows_dropna)
  have c2: "columns ?d2 = ?cols"
    by (simp add: columns_def schema_dropna schema_drop_duplicates)
  have row2: "length r = length ?cols \<and> NaN \<notin> set r" if "r \<in> set (rows ?d2)" for r
    using that wide1 by (auto simp: r2 columns_def schema_drop_duplicates)
  have w2: "\<forall>r \<in> set (rows ?d2). length r = length (columns ?d2)"
    using row2 c2 by simp
  have c3: "columns ?d3 = ?cols" using c2 by (simp add: columns_coerce_numeric)
  have r3: "rows ?d3 = map ?co (rows ?d2)"
    using rows_coerce_numeric [of ?d2 parse] w(1) c2 w2 by simp
  have valid: "subset_notnull t numeric_columns (?co r) \<longleftrightarrow> \<not> ?bad r"
    if "r \<in> set (rows ?d2)" for r
    using row2 [OF that] w(1) by (simp add: valid_iff_parseable)
  have "filter (\<lambda>c. c \<notin> set (columns ?d3)) numeric_columns = []"
    using assms(2) c3 by (auto simp: filter_empty_conv)
  then obtain d4 where d4: "dropna_subset numeric_columns ?d3 = Inr d4"
    by (simp add: dropna_subset_def)
  have sn: "subset_notnull ?d3 = subset_notnull t" using c3 by (rule subset_notnull_cong)
  have "rows d4 = filter (subset_notnull t numeric_columns) (map ?co (rows ?d2))"
    using dropna_subset_Inr [OF d4] sn r3 by simp
  also have "\<dots> = map ?co (filter (subset_notnull t numeric_columns \<circ> ?co) (rows ?d2))"
    by (simp add: filter_map)
  also have "filter (subset_notnull t numeric_columns \<circ> ?co) (rows ?d2)
             = filter (\<lambda>r. \<not> ?bad r) (rows ?d2)"
    by (rule filter_cong) (simp_all add: valid)
  finally have r4: "rows d4 = map ?co (filter (\<lambda>r. \<not> ?bad r) (rows ?d2))" .
  have "length (filter ?bad (rows ?d2)) + length (filter (\<lambda>r. \<not> ?bad r) (rows ?d2))
        = length (rows ?d2)"
    by (rule sum_length_filter_compl)
  then have cnt: "length (rows ?d3) - length (rows d4) = length (filter ?bad (rows ?d2))"
    by (simp add: r3 r4)
  have first: "\<exists>d4. dropna_subset numeric_columns ?d3 = Inr d4
            \<and> rows d4 = map ?co (filter (\<lambda>r. \<not> ?bad r) (rows ?d2))
            \<and> length (rows ?d3) - length (rows d4) = length (filter ?bad (rows ?d2))"
    using d4 r4 cnt by blast
  have cells: "\<forall>r \<in> set (rows ?d2). \<forall>k s.
             k < length ?cols \<and> ?cols ! k \<in> set numeric_columns
             \<and> r ! k = Str s \<and> parse s = None \<longrightarrow>
               ?co r ! k = NaN \<and> ?bad r \<and> count_list r NaN = 0"
  proof (intro ballI allI impI)
    fix r k s
    assume r: "r \<in> set (rows ?d2)"
      and k: "k < length ?cols \<and> ?cols ! k \<in> set numeric_columns \<and> r ! k = Str s \<and> parse s = None"
    note l = row2 [OF r]
    have "?co r ! k = NaN" using l k by (simp add: coerce_row_def nth_apply_row)
    moreover have "?bad r" using unparseable_iff [of r ?cols parse] l k by blast
    moreover have "count_list r NaN = 0" using l by simp
    ultimately show "?co r ! k = NaN \<and> ?bad r \<and> count_list r NaN = 0" by simp
  qed
  have counts: "\<forall>out rep. clean isspace lower parse t = Inr (out, rep) \<longrightarrow>
             invalid_rows_removed rep = length (filter ?bad (rows ?d2))
             \<and> missing_count rep = (\<Sum>r\<leftarrow>rows ?d1. count_list r NaN)"
  proof (intro allI impI)
    fix out rep assume ok: "clean isspace lower parse t = Inr (out, rep)"
    then obtain d4' where d4': "dropna_subset numeric_columns ?d3 = Inr d4'"
      and rep: "invalid_rows_removed rep = length (rows ?d3) - length (rows d4')"
               "missing_count rep = isnull_sum_sum ?d1"
      by (auto simp: clean_def Let_def split: sum.splits)
    have "d4' = d4" using d4 d4' by simp
    moreover have "isnull_sum_sum ?d1 = (\<Sum>r\<leftarrow>rows ?d1. count_list r NaN)"
      unfolding isnull_sum_sum_def isnull_sum_def using wide1 by (simp add: isnull_sum_sum_rows)
    ultimately show "invalid_rows_removed rep = length (filter ?bad (rows ?d2))
             \<and> missing_count rep = (\<Sum>r\<leftarrow>rows ?d1. count_list r NaN)"
      using rep cnt by simp
  qed
  have reach: "rows ?d2 = filter (\<lambda>r. NaN \<notin> set r) (keep_first [] (rows t))"
    using r2 by (simp add: rows_drop_duplicates)
  have reach_set: "set (rows ?d2) = {r \<in> set (rows t). NaN \<notin> set r}"
    by (auto simp: reach set_keep_first)
  show ?thesis using reach reach_set first r3 cells counts by (intro conjI)
qed

lemma listings_reach_coercion:
  "rows (dropna (drop_duplicates listings)) = [rows listings ! 0, rows listings ! 2, rows listings ! 4]"
proof -
  have "\<forall>r \<in> set (rows (drop_duplicates listings)). length r = length (schema (drop_duplicates listings))"
    using listings_wide by (simp add: drop_duplicates_def set_keep_first)
  then have "rows (dropna (drop_duplicates listings))
             = filter (\<lambda>r. NaN \<notin> set r) (keep_first [] (rows listings))"
    by (simp add: rows_dropna rows_drop_duplicates)
  also have "\<dots> = [rows listings ! 0, rows listings ! 2, rows listings ! 4]"
    by (simp add: listings_def)
  finally show ?thesis .
qed

theorem C4_witness:
  "wf_frame listings \<and> set numeric_columns \<subseteq> set (columns listings)
   \<and> rows listings ! 2 ! 2 = Str ''abc'' \<and> parse_decimal ''abc'' = None
   \<and> coerce_row parse_decimal (columns listings) (rows listings ! 2) ! 2 = NaN
   \<and> unparseable parse_decimal (columns listings) (rows listings ! 2)
   \<and> count_list (rows listings ! 2) NaN = 0
   \<and> length (filter (unparseable parse_decimal (columns listings))
                (rows (dropna (drop_duplicates listings)))) = 1
   \<and> (\<exists>out rep. clean latin1_isspace latin1_lower parse_decimal listings = Inr (out, rep)
         \<and> invalid_rows_removed rep = 1 \<and> missing_count rep = 2)"
proof -
  have cols: "columns listings = [''price'', ''mileage'', ''year'', ''model'', ''city'']"
    by (simp add: columns_def listings_def)
  have sub: "set numeric_columns \<subseteq> set (columns listings)"
    by (simp add: cols numeric_columns_def)
  note c4 = C4_unparseable_values_are_invalid_rows [OF wf_listings sub, where isspace = latin1_isspace
      and lower = latin1_lower and parse = parse_decimal]
  note reach = c4 [THEN conjunct1]
  note old = c4 [THEN conjunct2, THEN conjunct2]
  note cells = old [THEN conjunct2, THEN conjunct2, THEN conjunct1, rule_format]
  note counts = old [THEN conjunct2, THEN conjunct2, THEN conjunct2, rule_format]
  have mem: "rows listings ! 2 \<in> set (rows (dropna (drop_duplicates listings)))"
    by (simp add: listings_reach_coercion)
  have abc: "rows listings ! 2 ! 2 = Str ''abc''" by (simp add: listings_def)
  have hyp: "2 < length (columns listings) \<and> columns listings ! 2 \<in> set numeric_columns
             \<and> rows listings ! 2 ! 2 = Str ''abc'' \<and> parse_decimal ''abc'' = None"
    using abc by (simp add: cols numeric_columns_def parse_decimal_examples)
  note a = cells [OF mem hyp]
  note b = counts [OF listings_run]
  have n: "length (filter (unparseable parse_decimal (columns listings))
                (rows (dropna (drop_duplicates listings)))) = 1"
    using b by simp
  have "clean latin1_isspace latin1_lower parse_decimal listings =
          Inr (listings_clean, \<lparr>duplicates_removed = 1, missing_count = 2, invalid_rows_removed = 1\<rparr>)
        \<and> invalid_rows_removed \<lparr>duplicates_removed = 1, missing_count = 2, invalid_rows_removed = 1\<rparr> = 1
        \<and> missing_count \<lparr>duplicates_removed = 1, missing_count = 2, invalid_rows_removed = 1\<rparr> = 2"
    using listings_run by simp
  then have "\<exists>out rep. clean latin1_isspace latin1_lower parse_decimal listings = Inr (out, rep)
         \<and> invalid_rows_removed rep = 1 \<and> missing_count rep = 2"
    by (intro exI)
  then show ?thesis using wf_listings sub abc a n by (simp add: parse_decimal_examples)
qed

lemma header_only_run:
  "clean isspace lower parse header_only =
     Inr (header_only_clean, \<lparr>duplicates_removed = 0, missing_count = 0, invalid_rows_removed = 0\<rparr>)"
proof -
  have s1: "drop_duplicates header_only = header_only"
    by (simp add: drop_duplicates_def header_only_def)
  have u4: "[0..<4] = [0, 1, 2, 3]" by code_simp
  have s2: "isnull_sum_sum header_only = 0"
    by (simp add: isnull_sum_sum_def isnull_sum_def header_only_def u4)
  have s3: "dropna header_only = header_only"
    by (simp add: dropna_def header_only_def)
  have s4: "coerce_numeric parse header_only = header_only_clean"
    by (simp add: coerce_numeric_def numeric_columns_def coerce_column_def columns_def
        map_column_def header_only_def header_only_clean_def)
  have s5: "dropna_subset numeric_columns header_only_clean = Inr header_only_clean"
    by (simp add: dropna_subset_def numeric_columns_def columns_def header_only_clean_def)
  have s6: "normalize_categorical isspace lower categorical_columns header_only_clean = Inr header_only_clean"
    by (simp add: categorical_columns_def columns_def map_column_def header_only_clean_def)
  have n: "rows header_only = []" "rows header_only_clean = []"
    by (simp_all add: header_only_def header_only_clean_def)
  show ?thesis
    unfolding clean_def Let_def s1 s2 s3 s4 by (simp add: s5 s6 n)
qed

lemma getitem_cases:
  "getitem col t = (if col \<in> set (columns t)
                    then Inr (numeric_series (the (col_index col (columns t))) t)
                    else Inl (KeyError [col]))"
  using col_index_None [of col "columns t"]
  by (auto simp: getitem_def split: option.splits)

text \<open>
  C8. On a table with no row the statistics block fails. With the three columns present
  both averages are \<open>NaN\<close> (\<open>None\<close>), the minimum of \<^verbatim>\<open>year\<close> is \<open>NaN\<close> and
  \<^verbatim>\<open>int()\<close> of it raises \<^verbatim>\<open>ValueError\<close>; with a column absent the lookup raises
  \<^verbatim>\<open>KeyError\<close>. Nothing in the script catches either, so the reporting stage stops there.
\<close>

theorem C8_statistics_fail_on_empty_table:
  assumes "rows t = []"
  shows "(\<exists>e. compute_statistics t = Inl e)
       \<and> (\<exists>e. reporting t = Inl e)
       \<and> (set numeric_columns \<subseteq> set (columns t) \<longrightarrow>
            compute_statistics t = Inl ValueError
            \<and> getitem ''price'' t = Inr [] \<and> mean (present []) = None
            \<and> series_min (present []) = None \<and> py_int None = Inl ValueError)"
proof -
  have empty: "numeric_series j t = []" for j
    using assms by (simp add: numeric_series_def column_values_def)
  have gi: "getitem col t = (if col \<in> set (columns t) then Inr [] else Inl (KeyError [col]))" for col
    by (simp add: getitem_cases empty)
  have fail: "\<exists>e. compute_statistics t = Inl e"
    by (simp add: compute_statistics_def gi series_min_def py_int_def)
  then obtain e where e: "compute_statistics t = Inl e" by blast
  then have rep: "\<exists>e. reporting t = Inl e" by (simp add: reporting_def)
  have "compute_statistics t = Inl ValueError
        \<and> getitem ''price'' t = Inr [] \<and> mean (present []) = None
        \<and> series_min (present []) = None \<and> py_int None = Inl ValueError"
    if "set numeric_columns \<subseteq> set (columns t)"
    using that
    by (simp add: compute_statistics_def gi series_min_def py_int_def mean_def numeric_columns_def)
  then show ?thesis using fail rep by blast
qed

theorem C8_witness:
  "clean latin1_isspace latin1_lower parse_decimal header_only =
     Inr (header_only_clean, \<lparr>duplicates_removed = 0, missing_count = 0, invalid_rows_removed = 0\<rparr>)
   \<and> rows header_only_clean = []
   \<and> set numeric_columns \<subseteq> set (columns header_only_clean)
   \<and> compute_statistics header_only_clean = Inl ValueError
   \<and> (\<exists>e. reporting header_only_clean = Inl e)"
proof -
  have r: "rows header_only_clean = []" by (simp add: header_only_clean_def)
  have sub: "set numeric_columns \<subseteq> set (columns header_only_clean)"
    by (simp add: numeric_columns_def columns_def header_only_clean_def)
  note c8 = C8_statistics_fail_on_empty_table [OF r]
  have "compute_statistics header_only_clean = Inl ValueError"
    using c8 [THEN conjunct2, THEN conjunct2, rule_format, OF sub] by (rule conjunct1)
  moreover have "\<exists>e. reporting header_only_clean = Inl e"
    using c8 [THEN conjunct2] by (rule conjunct1)
  ultimately show ?thesis using r sub header_only_run [where isspace = latin1_isspace and lower = latin1_lower and parse = parse_decimal] by simp
qed

lemma col_index_append_other: "c \<noteq> y \<Longrightarrow> col_index c (xs @ [y]) = col_index c xs"
  by (induction xs) auto

lemma columns_assign_column:
  "columns (assign_column c vals t) = (if c \<in> set (columns t) then columns t else columns t @ [c])"
proof (cases "col_index c (columns t)")
  case None
  then show ?thesis using col_index_None [of c "columns t"]
    by (simp add: assign_column_def columns_def)
next
  case (Some j)
  then have j: "j < length (schema t)" "map fst (schema t) ! j = c"
    using col_index_Some [OF Some] by (simp_all add: columns_def)
  have "map fst ((schema t)[j := (c, Numeric)]) = map fst (schema t)"
    using j by (simp add: map_update list_update_same_conv)
  moreover have "c \<in> set (columns t)" using Some col_index_None [of c "columns t"] by auto
  ultimately show ?thesis using Some by (simp add: assign_column_def columns_def)
qed

lemma col_index_assign_column:
  "c' \<noteq> c \<Longrightarrow> col_index c' (columns (assign_column c vals t)) = col_index c' (columns t)"
  by (simp add: columns_assign_column col_index_append_other)

lemma length_rows_assign_column:
  "length vals = length (rows t) \<Longrightarrow> length (rows (assign_column c vals t)) = length (rows t)"
  by (simp add: assign_column_def split: option.splits)

lemma wide_assign_column:
  assumes "\<forall>r \<in> set (rows t). length r = length (schema t)"
  shows "\<forall>r \<in> set (rows (assign_column c vals t)). length r = length (schema (assign_column c vals t))"
  using assms by (auto simp: assign_column_def split: option.splits dest!: set_zip_leftD)

lemma column_values_assign_column:
  assumes wide: "\<forall>r \<in> set (rows t). length r = length (schema t)"
    and len: "length vals = length (rows t)"
    and k: "col_index c' (columns t) = Some k" and ne: "c' \<noteq> c"
  shows "column_values k (assign_column c vals t) = column_values k t
       \<and> snd (schema (assign_column c vals t) ! k) = snd (schema t ! k)"
proof -
  have kn: "k < length (schema t)" and ck: "columns t ! k = c'"
    using col_index_Some [OF k] by (simp_all add: columns_def)
  have fst_zip: "map fst (zip (rows t) vals) = rows t" using len by (simp add: map_fst_zip)
  show ?thesis
  proof (cases "col_index c (columns t)")
    case None
    have "map (\<lambda>r. cell_at r k) (map (\<lambda>(r, v). r @ [to_cell v]) (zip (rows t) vals))
          = map (\<lambda>r. cell_at r k) (map fst (zip (rows t) vals))"
      unfolding map_map
    proof (rule map_cong [OF refl])
      fix p assume p: "p \<in> set (zip (rows t) vals)"
      obtain r v where rv: "p = (r, v)" by (cases p)
      have "r \<in> set (rows t)" using p rv set_zip_leftD by fastforce
      then have "k < length r" using wide kn by simp
      then show "((\<lambda>r. cell_at r k) \<circ> (\<lambda>(r, v). r @ [to_cell v])) p = ((\<lambda>r. cell_at r k) \<circ> fst) p"
        by (simp add: rv cell_at_def nth_append)
    qed
    then show ?thesis using None kn
      by (simp add: assign_column_def column_values_def fst_zip nth_append)
  next
    case (Some j)
    have "columns t ! j = c" using col_index_Some [OF Some] by simp
    then have jk: "j \<noteq> k" using ck ne by auto
    have "map (\<lambda>r. cell_at r k) (map (\<lambda>(r, v). r[j := to_cell v]) (zip (rows t) vals))
          = map (\<lambda>r. cell_at r k) (map fst (zip (rows t) vals))"
      unfolding map_map
      by (rule map_cong [OF refl]) (use jk in \<open>auto simp: cell_at_def\<close>)
    then show ?thesis using Some jk
      by (simp add: assign_column_def column_values_def fst_zip)
  qed
qed

lemma same_data_refl: "\<forall>r \<in> set (rows t). length r = length (schema t) \<Longrightarrow> same_data t t"
  by (simp add: same_data_def)

lemma same_data_add:
  assumes "same_data t t'"
  shows "same_data t (add_price_in_lakhs j t')"
proof -
  let ?vals = "price_in_lakhs j t'"
  let ?t'' = "assign_column ''price_in_lakhs'' ?vals t'"
  have wide: "\<forall>r \<in> set (rows t'). length r = length (schema t')"
    using assms by (simp add: same_data_def)
  have len: "length ?vals = length (rows t')"
    by (simp add: price_in_lakhs_def numeric_series_def column_values_def)
  have "length (rows ?t'') = length (rows t)"
    using assms len by (simp add: length_rows_assign_column same_data_def)
  moreover have "\<forall>r \<in> set (rows t). length r = length (schema t)"
    using assms by (simp add: same_data_def)
  moreover have "\<forall>r \<in> set (rows ?t''). length r = length (schema ?t'')"
    using wide by (rule wide_assign_column)
  moreover have "col_index c (columns ?t'') = col_index c (columns t)
            \<and> (\<forall>k. col_index c (columns t) = Some k \<longrightarrow>
                  snd (schema ?t'' ! k) = snd (schema t ! k)
                  \<and> column_values k ?t'' = column_values k t)"
    if c: "c \<noteq> ''price_in_lakhs''" for c
  proof -
    have i: "col_index c (columns t') = col_index c (columns t)"
      and v: "\<forall>k. col_index c (columns t) = Some k \<longrightarrow>
                  snd (schema t' ! k) = snd (schema t ! k) \<and> column_values k t' = column_values k t"
      using assms c by (simp_all add: same_data_def)
    have "col_index c (columns ?t'') = col_index c (columns t)"
      using c i by (simp add: col_index_assign_column)
    moreover have "snd (schema ?t'' ! k) = snd (schema t ! k) \<and> column_values k ?t'' = column_values k t"
      if k: "col_index c (columns t) = Some k" for k
      using column_values_assign_column [OF wide len _ c, of k] i k v by simp
    ultimately show ?thesis by blast
  qed
  ultimately show ?thesis unfolding same_data_def add_price_in_lakhs_def by blast
qed

lemma same_dataD:
  assumes "same_data t t'" "c \<noteq> ''price_in_lakhs''"
  shows "col_index c (columns t') = col_index c (columns t)"
    and "col_index c (columns t) = Some k \<Longrightarrow> column_values k t' = column_values k t"
    and "col_index c (columns t) = Some k \<Longrightarrow> numeric_series k t' = numeric_series k t"
    and "col_index c (columns t) = Some k \<Longrightarrow> notnull_values k t' = notnull_values k t"
  using assms by (simp_all add: same_data_def numeric_series_def notnull_values_def)

lemma top_counts_block_same:
  assumes "same_data t t'" "c \<noteq> ''price_in_lakhs''"
  shows "top_counts_block c n t' = (fst (top_counts_block c n t), t')"
  using same_dataD(1,4) [OF assms]
  by (cases "col_index c (columns t)") (simp_all add: top_counts_block_def)

lemma pie_block_same:
  assumes "same_data t t'" "c \<noteq> ''price_in_lakhs''"
  shows "pie_block c t' = (fst (pie_block c t), t')"
  using same_dataD(1,4) [OF assms]
  by (cases "col_index c (columns t)") (simp_all add: pie_block_def)

lemma year_block_same:
  assumes "same_data t t'"
  shows "year_block t' = (fst (year_block t), t')"
  using same_dataD(1,3) [OF assms, of "''year''"]
  by (cases "col_index ''year'' (columns t)") (simp_all add: year_block_def)

lemma avg_price_block_same:
  assumes "same_data t t'"
  shows "avg_price_block t' = (fst (avg_price_block t), t')"
  using same_dataD(1,3) [OF assms, of "''year''"] same_dataD(1,3) [OF assms, of "''price''"]
  by (cases "col_index ''year'' (columns t)"; cases "col_index ''price'' (columns t)")
     (simp_all add: avg_price_block_def)

lemma price_in_lakhs_same:
  assumes "same_data t t'" "col_index ''price'' (columns t) = Some j"
  shows "price_in_lakhs j t' = price_in_lakhs j t"
  using same_dataD(3) [OF assms(1) _ assms(2)] by (simp add: price_in_lakhs_def)

lemma price_block_same:
  assumes "same_data t t'"
  shows "fst (price_block t') = fst (price_block t) \<and> same_data t (snd (price_block t'))"
proof (cases "col_index ''price'' (columns t)")
  case None
  then show ?thesis using same_dataD(1) [OF assms, of "''price''"] assms
    by (simp add: price_block_def)
next
  case (Some j)
  then have "col_index ''price'' (columns t') = Some j"
    using same_dataD(1) [OF assms, of "''price''"] by simp
  then show ?thesis
    using Some price_in_lakhs_same [OF assms Some] same_data_add [OF assms, of j]
    by (simp add: price_block_def Let_def)
qed

lemma mileage_block_same:
  assumes "same_data t t'"
  shows "fst (mileage_block t') = fst (mileage_block t) \<and> same_data t (snd (mileage_block t'))"
proof (cases "col_index ''mileage'' (columns t)")
  case None
  then show ?thesis using same_dataD(1) [OF assms, of "''mileage''"] assms
    by (simp add: mileage_block_def)
next
  case jm: (Some jm)
  then have jm': "col_index ''mileage'' (columns t') = Some jm"
    using same_dataD(1) [OF assms, of "''mileage''"] by simp
  show ?thesis
  proof (cases "col_index ''price'' (columns t)")
    case None
    then show ?thesis using same_dataD(1) [OF assms, of "''price''"] assms jm jm'
      by (simp add: mileage_block_def)
  next
    case (Some j)
    then have j': "col_index ''price'' (columns t') = Some j"
      using same_dataD(1) [OF assms, of "''price''"] by simp
    have "same_data t t" using assms by (intro same_data_refl) (simp add: same_data_def)
    then have "same_data t (add_price_in_lakhs j t)" by (rule same_data_add)
    then have m0: "numeric_series jm (add_price_in_lakhs j t) = numeric_series jm t"
      using same_dataD(3) [OF _ _ jm] by simp
    have a: "same_data t (add_price_in_lakhs j t')" using assms by (rule same_data_add)
    have m1: "numeric_series jm (add_price_in_lakhs j t') = numeric_series jm t"
      using same_dataD(3) [OF a _ jm] by simp
    have p1: "price_in_lakhs j t' = price_in_lakhs j t"
      using assms Some by (rule price_in_lakhs_same)
    have "fst (mileage_block t')
          = Some (Scatter (filter (\<lambda>(m, p). in_range p) (zip (numeric_series jm t) (price_in_lakhs j t))))"
      using jm' j' m1 p1 by (simp add: mileage_block_def Let_def)
    moreover have "snd (mileage_block t') = add_price_in_lakhs j t'"
      using jm' j' by (simp add: mileage_block_def Let_def)
    moreover have "fst (mileage_block t)
          = Some (Scatter (filter (\<lambda>(m, p). in_range p)
                (zip (numeric_series jm (add_price_in_lakhs j t)) (price_in_lakhs j t))))"
      using jm Some by (simp add: mileage_block_def Let_def)
    ultimately show ?thesis using a m0 by simp
  qed
qed

lemma run_blocks_same:
  assumes "\<And>b t'. b \<in> set bs \<Longrightarrow> same_data t t' \<Longrightarrow>
             fst (b t') = fst (b t) \<and> same_data t (snd (b t'))"
    and "same_data t t'"
  shows "fst (run_blocks bs t') = map (\<lambda>b. fst (b t)) bs \<and> same_data t (snd (run_blocks bs t'))"
  using assms
proof (induction bs arbitrary: t')
  case Nil
  then show ?case by simp
next
  case (Cons b bs)
  have b: "fst (b t') = fst (b t)" "same_data t (snd (b t'))"
    using Cons.prems(1) [of b t'] Cons.prems(2) by simp_all
  have "fst (run_blocks bs (snd (b t'))) = map (\<lambda>b. fst (b t)) bs
        \<and> same_data t (snd (run_blocks bs (snd (b t'))))"
    using Cons.IH [OF _ b(2)] Cons.prems(1) by simp
  then show ?case using b(1) by (simp add: case_prod_unfold)
qed

lemma run_blocks_id:
  "\<forall>b \<in> set bs. snd (b t) = t \<Longrightarrow> snd (run_blocks bs t) = t"
  by (induction bs) (simp_all add: case_prod_unfold)

lemma block_labels:
  "''model'' \<noteq> ''price_in_lakhs''" "''fuel_type'' \<noteq> ''price_in_lakhs''"
  "''transmission'' \<noteq> ''price_in_lakhs''" "''color'' \<noteq> ''price_in_lakhs''"
  "''city'' \<noteq> ''price_in_lakhs''"
  by simp_all

lemma chart_block_same:
  assumes "b \<in> set chart_blocks" "same_data t t'"
  shows "fst (b t') = fst (b t) \<and> same_data t (snd (b t'))"
proof -
  consider "b = model_block" | "b = fuel_block" | "b = transmission_block" | "b = price_block"
    | "b = mileage_block" | "b = year_block" | "b = color_block" | "b = avg_price_block"
    | "b = city_block"
    using assms(1) by (auto simp: chart_blocks_def)
  then show ?thesis
  proof cases
    case 1
    then show ?thesis using assms(2) top_counts_block_same [OF assms(2) block_labels(1)]
      by (simp add: model_block_def)
  next
    case 2
    then show ?thesis using assms(2) pie_block_same [OF assms(2) block_labels(2)]
      by (simp add: fuel_block_def)
  next
    case 3
    then show ?thesis using assms(2) pie_block_same [OF assms(2) block_labels(3)]
      by (simp add: transmission_block_def)
  next
    case 4
    then show ?thesis using price_block_same [OF assms(2)] by simp
  next
    case 5
    then show ?thesis using mileage_block_same [OF assms(2)] by simp
  next
    case 6
    then show ?thesis using assms(2) year_block_same [OF assms(2)] by simp
  next
    case 7
    then show ?thesis using assms(2) top_counts_block_same [OF assms(2) block_labels(4)]
      by (simp add: color_block_def)
  next
    case 8
    then show ?thesis using assms(2) avg_price_block_same [OF assms(2)] by simp
  next
    case 9
    then show ?thesis using assms(2) top_counts_block_same [OF assms(2) block_labels(5)]
      by (simp add: city_block_def)
  qed
qed

lemma snd_counting_blocks:
  "snd (top_counts_block c n t) = t" "snd (pie_block c t) = t" "snd (year_block t) = t"
  "snd (avg_price_block t) = t"
  by (simp_all add: top_counts_block_def pie_block_def year_block_def avg_price_block_def Let_def
      split: option.splits)

lemma add_price_in_lakhs_new_column:
  assumes "''price_in_lakhs'' \<notin> set (columns t)"
  shows "add_price_in_lakhs j t =
           t\<lparr>schema := schema t @ [(''price_in_lakhs'', Numeric)],
             rows := map (\<lambda>r. r @ [to_cell (map_option (\<lambda>p. p / 100000) (number (cell_at r j)))]) (rows t)\<rparr>"
proof -
  have none: "col_index ''price_in_lakhs'' (columns t) = None"
    using assms by (simp add: col_index_None)
  have "map (\<lambda>(r, v). r @ [to_cell v]) (zip (rows t) (price_in_lakhs j t))
        = map (\<lambda>r. r @ [to_cell (map_option (\<lambda>p. p / 100000) (number (cell_at r j)))]) (rows t)"
    by (simp add: price_in_lakhs_def numeric_series_def column_values_def zip_map2 map_zip_map2
        comp_def zip_same_conv_map)
  then show ?thesis using none by (simp add: add_price_in_lakhs_def assign_column_def)
qed

lemma listings_clean_wide:
  "\<forall>r \<in> set (rows listings_clean). length r = length (schema listings_clean)"
  by (simp add: listings_clean_def)

text \<open>
  C3, as the code has it. Seven of the nine chart blocks return the table as they found
  it. The price-distribution and the mileage-versus-price block assign the derived column
  \<^verbatim>\<open>price_in_lakhs\<close> to the table itself (a new last column when the label is not
  there yet); they leave the number and order of the rows and, under every other label,
  the position, dtype and values of the column as they were. Every chart of the run is
  the chart its block computes from the clean table: none depends on what an earlier
  block left. Without a \<^verbatim>\<open>price\<close> column the whole stage leaves the table unchanged.
\<close>

theorem C3_reporting_leaves_other_columns:
  assumes "\<forall>r \<in> set (rows t). length r = length (schema t)"
  shows "(\<forall>b \<in> set [model_block, fuel_block, transmission_block, year_block, color_block,
                    avg_price_block, city_block]. snd (b t) = t)
       \<and> (\<forall>b \<in> set chart_blocks. same_data t (snd (b t)))
       \<and> fst (run_blocks chart_blocks t) = map (\<lambda>b. fst (b t)) chart_blocks
       \<and> same_data t (snd (run_blocks chart_blocks t))
       \<and> (''price'' \<notin> set (columns t) \<longrightarrow> snd (run_blocks chart_blocks t) = t)
       \<and> (\<forall>j. col_index ''price'' (columns t) = Some j \<longrightarrow>
             snd (price_block t) = add_price_in_lakhs j t
             \<and> (''price_in_lakhs'' \<notin> set (columns t) \<longrightarrow>
                  add_price_in_lakhs j t =
                    t\<lparr>schema := schema t @ [(''price_in_lakhs'', Numeric)],
                      rows := map (\<lambda>r. r @ [to_cell (map_option (\<lambda>p. p / 100000)
                                                    (number (cell_at r j)))]) (rows t)\<rparr>))"
proof (intro conjI)
  have refl: "same_data t t" using assms by (rule same_data_refl)
  show "\<forall>b \<in> set [model_block, fuel_block, transmission_block, year_block, color_block,
                    avg_price_block, city_block]. snd (b t) = t"
    by (simp add: model_block_def fuel_block_def transmission_block_def color_block_def
        city_block_def snd_counting_blocks)
  show "\<forall>b \<in> set chart_blocks. same_data t (snd (b t))"
    using chart_block_same [OF _ refl] by blast
  show "fst (run_blocks chart_blocks t) = map (\<lambda>b. fst (b t)) chart_blocks"
    using run_blocks_same [of chart_blocks t t] chart_block_same refl by blast
  show "same_data t (snd (run_blocks chart_blocks t))"
    using run_blocks_same [of chart_blocks t t] chart_block_same refl by blast
  show "''price'' \<notin> set (columns t) \<longrightarrow> snd (run_blocks chart_blocks t) = t"
  proof
    assume "''price'' \<notin> set (columns t)"
    then have none: "col_index ''price'' (columns t) = None" by (simp add: col_index_None)
    have "\<forall>b \<in> set chart_blocks. snd (b t) = t"
      using none
      by (simp add: chart_blocks_def model_block_def fuel_block_def transmission_block_def
          color_block_def city_block_def snd_counting_blocks price_block_def mileage_block_def
          split: option.splits)
    then show "snd (run_blocks chart_blocks t) = t" by (rule run_blocks_id)
  qed
  show "\<forall>j. col_index ''price'' (columns t) = Some j \<longrightarrow>
             snd (price_block t) = add_price_in_lakhs j t
             \<and> (''price_in_lakhs'' \<notin> set (columns t) \<longrightarrow>
                  add_price_in_lakhs j t =
                    t\<lparr>schema := schema t @ [(''price_in_lakhs'', Numeric)],
                      rows := map (\<lambda>r. r @ [to_cell (map_option (\<lambda>p. p / 100000)
                                                    (number (cell_at r j)))]) (rows t)\<rparr>)"
    by (simp add: price_block_def Let_def add_price_in_lakhs_new_column)
qed

text \<open>
  The claim as stated fails: after the price-distribution block the clean table of the
  five listings has a sixth column.
\<close>

theorem C3_counterexample:
  "clean latin1_isspace latin1_lower parse_decimal listings =
       Inr (listings_clean, \<lparr>duplicates_removed = 1, missing_count = 2, invalid_rows_removed = 1\<rparr>)
   \<and> snd (price_block listings_clean) =
       \<lparr>schema = [(''price'', Numeric), (''mileage'', Numeric), (''year'', Numeric),
                  (''model'', Object), (''city'', Object), (''price_in_lakhs'', Numeric)],
        rows = [[Num 100000, Num 12, Num 2015, Str ''civic'', Str ''lahore'', Num 1],
                [Num 100000, Num 12, Num 2015, Str ''civic'', Str ''lahore'', Num 1]]\<rparr>
   \<and> columns (snd (price_block listings_clean)) \<noteq> columns listings_clean"
proof -
  have cols: "columns listings_clean = [''price'', ''mileage'', ''year'', ''model'', ''city'']"
    by (simp add: columns_def listings_clean_def)
  have j: "col_index ''price'' (columns listings_clean) = Some 0" by (simp add: cols)
  have new: "''price_in_lakhs'' \<notin> set (columns listings_clean)" by (simp add: cols)
  have "snd (price_block listings_clean) = add_price_in_lakhs 0 listings_clean"
    using j by (simp add: price_block_def Let_def)
  also have "\<dots> = listings_clean\<lparr>schema := schema listings_clean @ [(''price_in_lakhs'', Numeric)],
                      rows := map (\<lambda>r. r @ [to_cell (map_option (\<lambda>p. p / 100000)
                                                    (number (cell_at r 0)))]) (rows listings_clean)\<rparr>"
    using new by (rule add_price_in_lakhs_new_column)
  also have "\<dots> = \<lparr>schema = [(''price'', Numeric), (''mileage'', Numeric), (''year'', Numeric),
                  (''model'', Object), (''city'', Object), (''price_in_lakhs'', Numeric)],
        rows = [[Num 100000, Num 12, Num 2015, Str ''civic'', Str ''lahore'', Num 1],
                [Num 100000, Num 12, Num 2015, Str ''civic'', Str ''lahore'', Num 1]]\<rparr>"
    by (simp add: listings_clean_def cell_at_def)
  finally have p: "snd (price_block listings_clean) =
       \<lparr>schema = [(''price'', Numeric), (''mileage'', Numeric), (''year'', Numeric),
                  (''model'', Object), (''city'', Object), (''price_in_lakhs'', Numeric)],
        rows = [[Num 100000, Num 12, Num 2015, Str ''civic'', Str ''lahore'', Num 1],
                [Num 100000, Num 12, Num 2015, Str ''civic'', Str ''lahore'', Num 1]]\<rparr>" .
  have "columns (snd (price_block listings_clean)) \<noteq> columns listings_clean"
    unfolding p cols by (simp add: columns_def)
  then show ?thesis using p listings_run by simp
qed

theorem C3_witness:
  "snd (model_block listings_clean) = listings_clean
   \<and> snd (year_block listings_clean) = listings_clean
   \<and> same_data listings_clean (snd (price_block listings_clean))
   \<and> same_data listings_clean (snd (run_blocks chart_blocks listings_clean))
   \<and> fst (run_blocks chart_blocks listings_clean) = map (\<lambda>b. fst (b listings_clean)) chart_blocks
   \<and> col_index ''price'' (columns listings_clean) = Some 0
   \<and> snd (price_block listings_clean) = add_price_in_lakhs 0 listings_clean"
proof -
  note c3 = C3_reporting_leaves_other_columns [OF listings_clean_wide]
  note same7 = c3 [THEN conjunct1, rule_format]
  note each = c3 [THEN conjunct2, THEN conjunct1, rule_format]
  note charts = c3 [THEN conjunct2, THEN conjunct2, THEN conjunct1]
  note final = c3 [THEN conjunct2, THEN conjunct2, THEN conjunct2, THEN conjunct1]
  note price = c3 [THEN conjunct2, THEN conjunct2, THEN conjunct2, THEN conjunct2, THEN conjunct2,
      rule_format, THEN conjunct1]
  have j: "col_index ''price'' (columns listings_clean) = Some 0"
    by (simp add: columns_def listings_clean_def)
  have "snd (model_block listings_clean) = listings_clean" by (rule same7) simp
  moreover have "snd (year_block listings_clean) = listings_clean" by (rule same7) simp
  moreover have "same_data listings_clean (snd (price_block listings_clean))"
    by (rule each) (simp add: chart_blocks_def)
  moreover have "snd (price_block listings_clean) = add_price_in_lakhs 0 listings_clean"
    using j by (rule price)
  ultimately show ?thesis using charts final j by simp
qed

lemma set_value_counts:
  "set (value_counts vs) = (\<lambda>k. (k, count_list vs k)) ` set vs"
  by (simp add: value_counts_def set_keep_first)

lemma map_fst_counts: "map fst (map (\<lambda>k. (k, count_list vs k)) ks) = ks"
  by (simp add: comp_def)

lemma distinct_value_counts: "distinct (map fst (value_counts vs))"
proof -
  let ?xs = "map (\<lambda>k. (k, count_list vs k)) (keep_first [] vs)"
  have "inj_on (\<lambda>k. (k, count_list vs k)) (set (keep_first [] vs))"
    by (rule inj_onI) simp
  then have d: "distinct ?xs" by (simp add: distinct_map distinct_keep_first)
  have i: "inj_on fst (set ?xs)" by (rule inj_onI) auto
  have "distinct (sort_key (\<lambda>p. - int (snd p)) ?xs)"
    and "inj_on fst (set (sort_key (\<lambda>p. - int (snd p)) ?xs))"
    using d i by simp_all
  then show ?thesis unfolding value_counts_def by (simp only: distinct_map simp_thms)
qed

lemma length_value_counts: "length (value_counts vs) = card (set vs)"
proof -
  have "length (value_counts vs) = length (keep_first [] vs)" by (simp add: value_counts_def)
  also have "\<dots> = card (set (keep_first [] vs))"
    using distinct_keep_first [of "[]" vs] by (simp add: distinct_card)
  finally show ?thesis by (simp add: set_keep_first)
qed

lemma sorted_value_counts: "sorted_wrt (\<lambda>a b. snd b \<le> snd a) (value_counts vs)"
proof -
  have "sorted (map (\<lambda>p. - int (snd p)) (value_counts vs))"
    unfolding value_counts_def by (rule sorted_sort_key)
  then have "sorted_wrt (\<lambda>a b. - int (snd a) \<le> - int (snd b)) (value_counts vs)"
    by (simp add: sorted_map)
  then show ?thesis by (rule sorted_wrt_mono_rel [rotated]) simp
qed

text \<open>The first \<open>n\<close> entries of \<^verbatim>\<open>value_counts()\<close>, as \<^verbatim>\<open>head(n)\<close> takes them.\<close>

lemma top_value_counts:
  fixes vs :: "'a list" and n :: nat
  defines "es \<equiv> take n (value_counts vs)"
  shows "length es = min n (card (set vs))"
    and "sorted_wrt (\<lambda>a b. snd b \<le> snd a) es"
    and "distinct (map fst es)"
    and "\<forall>e \<in> set es. fst e \<in> set vs \<and> snd e = count_list vs (fst e)"
    and "\<forall>v \<in> set vs. v \<notin> fst ` set es \<longrightarrow> (\<forall>e \<in> set es. count_list vs v \<le> snd e)"
    and "card (set vs) \<le> n \<longrightarrow> fst ` set es = set vs"
proof -
  let ?vc = "value_counts vs"
  show "length es = min n (card (set vs))"
    by (simp add: es_def length_value_counts min.commute)
  show "sorted_wrt (\<lambda>a b. snd b \<le> snd a) es"
    unfolding es_def using sorted_value_counts by (rule sorted_wrt_take)
  show "distinct (map fst es)"
    unfolding es_def take_map [symmetric] using distinct_value_counts by (rule distinct_take)
  show "\<forall>e \<in> set es. fst e \<in> set vs \<and> snd e = count_list vs (fst e)"
  proof
    fix e assume "e \<in> set es"
    then have "e \<in> set ?vc" unfolding es_def by (rule in_set_takeD)
    then show "fst e \<in> set vs \<and> snd e = count_list vs (fst e)"
      by (auto simp: set_value_counts)
  qed
  show "\<forall>v \<in> set vs. v \<notin> fst ` set es \<longrightarrow> (\<forall>e \<in> set es. count_list vs v \<le> snd e)"
  proof (intro ballI impI)
    fix v e assume v: "v \<in> set vs" "v \<notin> fst ` set es" and e: "e \<in> set es"
    have "(v, count_list vs v) \<in> set ?vc" using v(1) by (simp add: set_value_counts)
    then have "(v, count_list vs v) \<in> set (take n ?vc) \<union> set (drop n ?vc)"
      by (simp only: set_append [symmetric] append_take_drop_id)
    moreover have "(v, count_list vs v) \<notin> set (take n ?vc)"
      using v(2) unfolding es_def by force
    ultimately have d: "(v, count_list vs v) \<in> set (drop n ?vc)" by simp
    have "sorted_wrt (\<lambda>a b. snd b \<le> snd a) (take n ?vc @ drop n ?vc)"
      using sorted_value_counts [of vs] by simp
    then have "\<forall>x \<in> set (take n ?vc). \<forall>y \<in> set (drop n ?vc). snd y \<le> snd x"
      by (simp only: sorted_wrt_append) blast
    then show "count_list vs v \<le> snd e" using d e unfolding es_def by force
  qed
  show "card (set vs) \<le> n \<longrightarrow> fst ` set es = set vs"
  proof
    assume "card (set vs) \<le> n"
    then have "es = ?vc" by (simp add: es_def length_value_counts)
    then show "fst ` set es = set vs" by (force simp: set_value_counts)
  qed
qed

lemma notnull_values_clean:
  assumes "is_clean P t" "j < length (schema t)"
  shows "notnull_values j t = column_values j t"
proof -
  have "\<not> isnull (cell_at r j)" if "r \<in> set (rows t)" for r
  proof -
    have "length r = length (schema t)" "NaN \<notin> set r" using is_cleanD(1) [OF assms(1)] that by simp_all
    then show ?thesis using assms(2) by (metis isnull_def cell_at_def nth_mem)
  qed
  then show ?thesis by (simp add: notnull_values_def column_values_def)
qed

text \<open>
  C10. On a clean table each of the three Top-N blocks raises nothing. When its column is
  absent the block is skipped. Otherwise its bar chart lists \<open>min N d\<close> entries, \<open>d\<close>
  the number of distinct values of the column: pairwise different values, each with its
  number of occurrences, in descending order of that number, and no value left out occurs
  more often than one that is shown. With at most \<open>N\<close> distinct values all of them are
  shown, and nothing else.
\<close>

theorem C10_top_n_charts:
  assumes "wf_frame t0" "clean isspace lower parse t0 = Inr (t, rep)"
    and "(b, col, n) \<in> set [(model_block, ''model'', 15), (color_block, ''color'', 15),
                            (city_block, ''city'', 10)]"
  shows "(col_index col (columns t) = None \<longrightarrow> b t = (None, t))
       \<and> (\<forall>j. col_index col (columns t) = Some j \<longrightarrow>
            (\<exists>es. b t = (Some (Bar es), t)
               \<and> length es = min n (card (set (column_values j t)))
               \<and> sorted_wrt (\<lambda>x y. snd y \<le> snd x) es
               \<and> distinct (map fst es)
               \<and> (\<forall>e \<in> set es. fst e \<in> set (column_values j t)
                                 \<and> snd e = count_list (column_values j t) (fst e))
               \<and> (\<forall>v \<in> set (column_values j t). v \<notin> fst ` set es \<longrightarrow>
                     (\<forall>e \<in> set es. count_list (column_values j t) v \<le> snd e))
               \<and> (card (set (column_values j t)) \<le> n \<longrightarrow>
                     fst ` set es = set (column_values j t))))"
proof (intro conjI allI impI)
  have b: "b = top_counts_block col n"
    using assms(3) by (auto simp: model_block_def color_block_def city_block_def)
  show "b t = (None, t)" if "col_index col (columns t) = None"
    using that by (simp add: b top_counts_block_def)
  fix j assume j: "col_index col (columns t) = Some j"
  have c: "is_clean (\<lambda>v. \<exists>s. v = lower (strip isspace s)) t" using assms(1,2) by (rule clean_is_clean)
  have "j < length (schema t)" using col_index_Some [OF j] by (simp add: columns_def)
  then have nv: "notnull_values j t = column_values j t" using c by (intro notnull_values_clean)
  let ?vs = "column_values j t"
  let ?es = "take n (value_counts ?vs)"
  note top = top_value_counts [where n = n and vs = ?vs]
  have run: "b t = (Some (Bar ?es), t)" using j nv by (simp add: b top_counts_block_def)
  have "b t = (Some (Bar ?es), t)
               \<and> length ?es = min n (card (set ?vs))
               \<and> sorted_wrt (\<lambda>x y. snd y \<le> snd x) ?es
               \<and> distinct (map fst ?es)
               \<and> (\<forall>e \<in> set ?es. fst e \<in> set ?vs \<and> snd e = count_list ?vs (fst e))
               \<and> (\<forall>v \<in> set ?vs. v \<notin> fst ` set ?es \<longrightarrow>
                     (\<forall>e \<in> set ?es. count_list ?vs v \<le> snd e))
               \<and> (card (set ?vs) \<le> n \<longrightarrow> fst ` set ?es = set ?vs)"
    using run top by (intro conjI)
  then show "\<exists>es. b t = (Some (Bar es), t)
               \<and> length es = min n (card (set ?vs))
               \<and> sorted_wrt (\<lambda>x y. snd y \<le> snd x) es
               \<and> distinct (map fst es)
               \<and> (\<forall>e \<in> set es. fst e \<in> set ?vs \<and> snd e = count_list ?vs (fst e))
               \<and> (\<forall>v \<in> set ?vs. v \<notin> fst ` set es \<longrightarrow>
                     (\<forall>e \<in> set es. count_list ?vs v \<le> snd e))
               \<and> (card (set ?vs) \<le> n \<longrightarrow> fst ` set es = set ?vs)"
    by (intro exI)
qed

lemma listings_clean_columns:
  "columns listings_clean = [''price'', ''mileage'', ''year'', ''model'', ''city'']"
  by (simp add: columns_def listings_clean_def)

lemma listings_clean_model_values:
  "column_values 3 listings_clean = [Str ''civic'', Str ''civic'']"
  by (simp add: column_values_def cell_at_def listings_clean_def)

theorem C10_witness:
  "wf_frame listings
   \<and> clean latin1_isspace latin1_lower parse_decimal listings =
       Inr (listings_clean, \<lparr>duplicates_removed = 1, missing_count = 2, invalid_rows_removed = 1\<rparr>)
   \<and> col_index ''model'' (columns listings_clean) = Some 3
   \<and> col_index ''color'' (columns listings_clean) = None
   \<and> color_block listings_clean = (None, listings_clean)
   \<and> card (set (column_values 3 listings_clean)) = 1
   \<and> (\<exists>es. model_block listings_clean = (Some (Bar es), listings_clean)
         \<and> length es = 1 \<and> fst ` set es = {Str ''civic''})"
proof -
  have jm: "col_index ''model'' (columns listings_clean) = Some 3"
    by (simp add: listings_clean_columns)
  have jc: "col_index ''color'' (columns listings_clean) = None"
    by (simp add: listings_clean_columns)
  have card: "card (set (column_values 3 listings_clean)) = 1"
    by (simp add: listings_clean_model_values)
  have m: "(model_block, ''model'', 15) \<in> set [(model_block, ''model'', 15),
             (color_block, ''color'', 15), (city_block, ''city'', 10)]"
    by (intro list.set_intros)
  have k: "(color_block, ''color'', 15) \<in> set [(model_block, ''model'', 15),
             (color_block, ''color'', 15), (city_block, ''city'', 10)]"
    by (intro list.set_intros)
  note cm = C10_top_n_charts [OF wf_listings listings_run m, THEN conjunct2, THEN spec, THEN mp, OF jm]
  note cc = C10_top_n_charts [OF wf_listings listings_run k, THEN conjunct1, THEN mp, OF jc]
  from cm obtain es where all: "model_block listings_clean = (Some (Bar es), listings_clean)
               \<and> length es = min 15 (card (set (column_values 3 listings_clean)))
               \<and> sorted_wrt (\<lambda>x y. snd y \<le> snd x) es
               \<and> distinct (map fst es)
               \<and> (\<forall>e \<in> set es. fst e \<in> set (column_values 3 listings_clean)
                                 \<and> snd e = count_list (column_values 3 listings_clean) (fst e))
               \<and> (\<forall>v \<in> set (column_values 3 listings_clean). v \<notin> fst ` set es \<longrightarrow>
                     (\<forall>e \<in> set es. count_list (column_values 3 listings_clean) v \<le> snd e))
               \<and> (card (set (column_values 3 listings_clean)) \<le> 15 \<longrightarrow>
                     fst ` set es = set (column_values 3 listings_clean))" ..
  note es = all [THEN conjunct1] all [THEN conjunct2, THEN conjunct1]
    all [THEN conjunct2, THEN conjunct2, THEN conjunct2, THEN conjunct2, THEN conjunct2, THEN conjunct2]
  have len: "length es = 1" using es(2) unfolding card by simp
  have "fst ` set es = set (column_values 3 listings_clean)" using es(3) unfolding card by simp
  then have shown: "fst ` set es = {Str ''civic''}" unfolding listings_clean_model_values by simp
  have "model_block listings_clean = (Some (Bar es), listings_clean)
         \<and> length es = 1 \<and> fst ` set es = {Str ''civic''}"
    using es(1) len shown by (intro conjI)
  then have ex: "\<exists>es. model_block listings_clean = (Some (Bar es), listings_clean)
         \<and> length es = 1 \<and> fst ` set es = {Str ''civic''}" by (intro exI)
  show ?thesis using wf_listings listings_run jm jc cc card ex by (intro conjI)
qed

lemma present_conv: "present xs = map the (filter (\<lambda>x. x \<noteq> None) xs)"
  by (induction xs rule: present.induct) simp_all

lemma mset_present: "mset xs = mset xs' \<Longrightarrow> mset (present xs) = mset (present xs')"
proof -
  assume eq: "mset xs = mset xs'"
  have "mset (present ys) = image_mset the (filter_mset (\<lambda>x. x \<noteq> None) (mset ys))" for ys :: "'a option list"
    unfolding present_conv by (simp only: mset_map mset_filter)
  then show ?thesis using eq by simp
qed

lemma count_list_mset: "count_list xs x = count (mset xs) x"
  by (induction xs) simp_all

lemma mset_keep_first: "mset (keep_first [] ys) = mset (sorted_list_of_set (set ys))"
proof -
  have "set (keep_first [] ys) = set (sorted_list_of_set (set ys))"
    by (simp add: set_keep_first)
  moreover have "distinct (keep_first [] ys)" by (rule distinct_keep_first)
  moreover have "distinct (sorted_list_of_set (set ys))" by simp
  ultimately show ?thesis by (simp only: set_eq_iff_mset_eq_distinct)
qed

text \<open>Sorted by value, the value counts are the distinct values in ascending order, each with its count.\<close>

lemma sorted_value_counts_canonical:
  fixes ys :: "'a::linorder list"
  shows "sort_key fst (value_counts ys)
         = map (\<lambda>y. (y, count_list ys y)) (sorted_list_of_set (set ys))"
proof (rule sort_key_inj_key_eq)
  let ?g = "\<lambda>y. (y, count_list ys y)"
  have "mset (value_counts ys) = mset (map ?g (keep_first [] ys))"
    by (simp add: value_counts_def)
  also have "\<dots> = image_mset ?g (mset (keep_first [] ys))" by simp
  also have "\<dots> = image_mset ?g (mset (sorted_list_of_set (set ys)))"
    by (simp only: mset_keep_first)
  finally show "mset (value_counts ys) = mset (map ?g (sorted_list_of_set (set ys)))" by simp
  show "inj_on fst (set (value_counts ys))"
    by (rule inj_onI) (auto simp: set_value_counts)
  show "sorted (map fst (map ?g (sorted_list_of_set (set ys))))"
    by (simp add: comp_def)
qed

lemma sorted_keys_canonical:
  fixes ys :: "'a::linorder list"
  shows "sort_key (\<lambda>k. k) (keep_first [] ys) = sorted_list_of_set (set ys)"
  by (rule sort_key_inj_key_eq) (simp_all add: mset_keep_first)

lemma map_fst_groupby_mean:
  "map fst (groupby_mean kvs) = sorted_list_of_set (set (present (map fst kvs)))"
  by (simp add: groupby_mean_def comp_def sorted_keys_canonical)

lemma mset_map_eq: "mset xs = mset ys \<Longrightarrow> mset (map f xs) = mset (map f ys)"
  by simp

lemma mset_filter_eq: "mset xs = mset ys \<Longrightarrow> mset (filter P xs) = mset (filter P ys)"
  by simp

lemma mean_mset:
  fixes xs ys :: "rat list"
  assumes eq: "mset xs = mset ys"
  shows "mean xs = mean ys"
proof -
  have "sum_mset (mset xs) = sum_mset (mset ys)" using eq by simp
  then have s: "sum_list xs = sum_list ys" by (simp only: sum_mset_sum_list)
  have l: "length xs = length ys" using eq by (rule mset_eq_length)
  then have e: "xs = [] \<longleftrightarrow> ys = []" by auto
  show ?thesis unfolding mean_def s l e ..
qed

lemma groupby_mean_mset:
  assumes "mset kvs = mset kvs'"
  shows "groupby_mean kvs = groupby_mean kvs'"
proof -
  have keys: "mset (present (map fst kvs)) = mset (present (map fst kvs'))"
    using assms by (intro mset_present mset_map_eq)
  then have "set (present (map fst kvs)) = set (present (map fst kvs'))" by (rule mset_eq_setD)
  then have k: "sort_key (\<lambda>k. k) (keep_first [] (present (map fst kvs)))
              = sort_key (\<lambda>k. k) (keep_first [] (present (map fst kvs')))"
    by (simp add: sorted_keys_canonical)
  have "mean (present (map snd (filter P kvs))) = mean (present (map snd (filter P kvs')))" for P
    using assms by (intro mean_mset mset_present mset_map_eq mset_filter_eq)
  then show ?thesis unfolding groupby_mean_def k by simp
qed

lemma count_list_eq_mset: "mset xs = mset ys \<Longrightarrow> count_list xs = count_list ys"
  by (rule ext) (simp add: count_list_mset)

lemma value_counts_sorted_mset:
  fixes ys :: "'a::linorder list"
  assumes "mset ys = mset ys'"
  shows "sort_key fst (value_counts ys) = sort_key fst (value_counts ys')"
  unfolding sorted_value_counts_canonical mset_eq_setD [OF assms] count_list_eq_mset [OF assms] ..

lemma numeric_series_mset:
  "mset (rows t') = mset (rows t) \<Longrightarrow> mset (numeric_series j t') = mset (numeric_series j t)"
  unfolding numeric_series_def column_values_def by (intro mset_map_eq)

lemma zip_series_mset:
  fixes t t' :: "('c, 'n) frame"
  assumes "mset (rows t') = mset (rows t)"
  shows "mset (zip (numeric_series a t') (numeric_series b t'))
         = mset (zip (numeric_series a t) (numeric_series b t))"
proof -
  have "zip (numeric_series a u) (numeric_series b u)
        = map (\<lambda>r. (number (cell_at r a), number (cell_at r b))) (rows u)" for u :: "('c, 'n) frame"
    by (simp add: numeric_series_def column_values_def zip_map_map zip_same_conv_map)
  then show ?thesis using assms by (simp only:) (rule mset_map_eq)
qed

text \<open>Both year charts depend on the rows only as a multiset: any other order of the rows gives the same points.\<close>

lemma year_charts_row_order:
  assumes "schema t' = schema t" "mset (rows t') = mset (rows t)"
  shows "fst (year_block t') = fst (year_block t)"
    and "fst (avg_price_block t') = fst (avg_price_block t)"
proof -
  have cols: "columns t' = columns t" using assms(1) by (simp add: columns_def)
  have ys: "mset (present (numeric_series j t')) = mset (present (numeric_series j t))" for j
    using numeric_series_mset [OF assms(2)] by (rule mset_present)
  show "fst (year_block t') = fst (year_block t)"
    using value_counts_sorted_mset [OF ys]
    by (simp add: year_block_def cols split: option.splits)
  show "fst (avg_price_block t') = fst (avg_price_block t)"
    using groupby_mean_mset [OF zip_series_mset [OF assms(2)]]
    by (simp add: avg_price_block_def cols split: option.splits)
qed

lemma present_numbers: "\<forall>c \<in> set cs. is_number c \<Longrightarrow> map Num (present (map number cs)) = cs"
proof (induction cs)
  case Nil
  then show ?case by simp
next
  case (Cons c cs)
  then show ?case by (cases c) simp_all
qed

lemma clean_numeric_column:
  assumes "is_clean P t" "l \<in> set numeric_columns"
  obtains j where "col_index l (columns t) = Some j"
    "map Num (present (numeric_series j t)) = column_values j t"
proof -
  from is_cleanD(2) [OF assms] obtain j where j: "col_index l (columns t) = Some j"
    and num: "\<forall>r \<in> set (rows t). is_number (r ! j)" by blast
  have jn: "j < length (schema t)" using col_index_Some [OF j] by (simp add: columns_def)
  have "\<forall>c \<in> set (column_values j t). is_number c"
    using num is_cleanD(1) [OF assms(1)] jn by (auto simp: column_values_def cell_at_def)
  then have "map Num (present (numeric_series j t)) = column_values j t"
    unfolding numeric_series_def by (rule present_numbers)
  then show ?thesis using j that by blast
qed

lemma length_numeric_series: "length (numeric_series j t) = length (rows t)"
  by (simp add: numeric_series_def column_values_def)

text \<open>
  C9. On a clean table both year charts are drawn. Let \<open>ys\<close> be the years of the rows.
  The points of the year-count chart carry the distinct years in strictly ascending order,
  each with the number of rows of that year; the points of the mean-price chart carry the
  same years in the same order, each with the mean price of its rows divided by 100000.
  A table with the same rows in any other order gives the same two charts.
\<close>

theorem C9_year_charts_ascending:
  assumes "wf_frame t0" "clean isspace lower parse t0 = Inr (t, rep)"
  shows "\<exists>jy jp ys.
           col_index ''year'' (columns t) = Some jy \<and> col_index ''price'' (columns t) = Some jp
           \<and> column_values jy t = map Num ys
           \<and> (\<exists>pts. year_block t = (Some (LineCount pts), t)
                 \<and> sorted (map fst pts) \<and> distinct (map fst pts) \<and> set (map fst pts) = set ys
                 \<and> (\<forall>p \<in> set pts. snd p = count_list ys (fst p)))
           \<and> (\<exists>pts. avg_price_block t = (Some (LineMean pts), t)
                 \<and> sorted (map fst pts) \<and> distinct (map fst pts) \<and> set (map fst pts) = set ys
                 \<and> (\<forall>p \<in> set pts. snd p =
                       map_option (\<lambda>m. m / 100000)
                         (mean (present (map snd (filter (\<lambda>kv. fst kv = Some (fst p))
                            (zip (numeric_series jy t) (numeric_series jp t))))))))
           \<and> (\<forall>t'. schema t' = schema t \<and> mset (rows t') = mset (rows t) \<longrightarrow>
                 fst (year_block t') = fst (year_block t)
                 \<and> fst (avg_price_block t') = fst (avg_price_block t))"
proof -
  have c: "is_clean (\<lambda>v. \<exists>s. v = lower (strip isspace s)) t" using assms by (rule clean_is_clean)
  obtain jy where jy: "col_index ''year'' (columns t) = Some jy"
    and years: "map Num (present (numeric_series jy t)) = column_values jy t"
    using clean_numeric_column [OF c, of "''year''"] by (auto simp: numeric_columns_def)
  obtain jp where jp: "col_index ''price'' (columns t) = Some jp"
    using clean_numeric_column [OF c, of "''price''"] by (auto simp: numeric_columns_def)
  let ?ys = "present (numeric_series jy t)"
  let ?S = "sorted_list_of_set (set ?ys)"
  let ?kvs = "zip (numeric_series jy t) (numeric_series jp t)"
  let ?cnt = "map (\<lambda>y. (y, count_list ?ys y)) ?S"
  let ?h = "\<lambda>(y, m). (y, map_option (\<lambda>p. p / (100000::rat)) m)"
  let ?avg = "map ?h (groupby_mean ?kvs)"
  have yb: "year_block t = (Some (LineCount ?cnt), t)"
    using jy by (simp add: year_block_def sorted_value_counts_canonical)
  have cnt_keys: "map fst ?cnt = ?S" by (simp add: comp_def)
  have cnt_vals: "\<forall>p \<in> set ?cnt. snd p = count_list ?ys (fst p)" by auto
  have year_chart: "year_block t = (Some (LineCount ?cnt), t)
                 \<and> sorted (map fst ?cnt) \<and> distinct (map fst ?cnt) \<and> set (map fst ?cnt) = set ?ys
                 \<and> (\<forall>p \<in> set ?cnt. snd p = count_list ?ys (fst p))"
    using yb cnt_vals unfolding cnt_keys by simp
  have ab: "avg_price_block t = (Some (LineMean ?avg), t)"
    using jy jp by (simp add: avg_price_block_def Let_def)
  have "map fst ?kvs = numeric_series jy t"
    by (simp add: length_numeric_series map_fst_zip)
  then have avg_keys: "map fst ?avg = ?S"
    using map_fst_groupby_mean [of ?kvs] by (simp add: comp_def case_prod_unfold)
  have avg_vals: "\<forall>p \<in> set ?avg. snd p =
                       map_option (\<lambda>m. m / 100000)
                         (mean (present (map snd (filter (\<lambda>kv. fst kv = Some (fst p)) ?kvs))))"
    by (auto simp: groupby_mean_def)
  have avg_chart: "avg_price_block t = (Some (LineMean ?avg), t)
                 \<and> sorted (map fst ?avg) \<and> distinct (map fst ?avg) \<and> set (map fst ?avg) = set ?ys
                 \<and> (\<forall>p \<in> set ?avg. snd p =
                       map_option (\<lambda>m. m / 100000)
                         (mean (present (map snd (filter (\<lambda>kv. fst kv = Some (fst p)) ?kvs)))))"
    using ab avg_vals unfolding avg_keys by simp
  have order: "\<forall>t'. schema t' = schema t \<and> mset (rows t') = mset (rows t) \<longrightarrow>
                 fst (year_block t') = fst (year_block t)
                 \<and> fst (avg_price_block t') = fst (avg_price_block t)"
    using year_charts_row_order by blast
  have ex1: "\<exists>pts. year_block t = (Some (LineCount pts), t)
                 \<and> sorted (map fst pts) \<and> distinct (map fst pts) \<and> set (map fst pts) = set ?ys
                 \<and> (\<forall>p \<in> set pts. snd p = count_list ?ys (fst p))"
    using year_chart by (intro exI)
  have ex2: "\<exists>pts. avg_price_block t = (Some (LineMean pts), t)
                 \<and> sorted (map fst pts) \<and> distinct (map fst pts) \<and> set (map fst pts) = set ?ys
                 \<and> (\<forall>p \<in> set pts. snd p =
                       map_option (\<lambda>m. m / 100000)
                         (mean (present (map snd (filter (\<lambda>kv. fst kv = Some (fst p)) ?kvs)))))"
    using avg_chart by (intro exI)
  have "col_index ''year'' (columns t) = Some jy \<and> col_index ''price'' (columns t) = Some jp
           \<and> column_values jy t = map Num ?ys
           \<and> (\<exists>pts. year_block t = (Some (LineCount pts), t)
                 \<and> sorted (map fst pts) \<and> distinct (map fst pts) \<and> set (map fst pts) = set ?ys
                 \<and> (\<forall>p \<in> set pts. snd p = count_list ?ys (fst p)))
           \<and> (\<exists>pts. avg_price_block t = (Some (LineMean pts), t)
                 \<and> sorted (map fst pts) \<and> distinct (map fst pts) \<and> set (map fst pts) = set ?ys
                 \<and> (\<forall>p \<in> set pts. snd p =
                       map_option (\<lambda>m. m / 100000)
                         (mean (present (map snd (filter (\<lambda>kv. fst kv = Some (fst p)) ?kvs))))))
           \<and> (\<forall>t'. schema t' = schema t \<and> mset (rows t') = mset (rows t) \<longrightarrow>
                 fst (year_block t') = fst (year_block t)
                 \<and> fst (avg_price_block t') = fst (avg_price_block t))"
    using jy jp years [symmetric] ex1 ex2 order by (intro conjI)
  then show ?thesis by (intro exI)
qed

lemma wf_two_years: "wf_frame two_years"
  by (simp add: wf_frame_def two_years_def columns_def)

lemma two_years_columns: "columns two_years = [''price'', ''mileage'', ''year'']"
  by (simp add: columns_def two_years_def)

lemma is_clean_two_years: "is_clean P two_years"
proof -
  have "\<forall>r \<in> set (rows two_years). length r = length (schema two_years) \<and> NaN \<notin> set r"
    by (simp add: two_years_def)
  moreover have "\<forall>l \<in> set numeric_columns.
            case col_index l (columns two_years) of
              None \<Rightarrow> False
            | Some j \<Rightarrow> snd (schema two_years ! j) = Numeric
                        \<and> (\<forall>r \<in> set (rows two_years). is_number (r ! j))"
    unfolding two_years_columns by (simp add: numeric_columns_def two_years_def)
  moreover have "\<forall>l \<in> set categorical_columns.
            case col_index l (columns two_years) of
              None \<Rightarrow> True
            | Some j \<Rightarrow> snd (schema two_years ! j) = Object
                        \<and> (\<forall>r \<in> set (rows two_years). is_str P (r ! j))"
    unfolding two_years_columns by (simp add: categorical_columns_def)
  ultimately show ?thesis unfolding is_clean_def by (intro conjI)
qed

lemma two_years_run:
  "clean isspace lower parse two_years =
     Inr (two_years, \<lparr>duplicates_removed = 0, missing_count = 0, invalid_rows_removed = 0\<rparr>)"
proof -
  have "distinct (rows two_years)" by (simp add: two_years_def)
  then have "drop_duplicates two_years = two_years" by (rule drop_duplicates_distinct)
  then show ?thesis using clean_rerun [where isspace = isspace and lower = lower and parse = parse
        and t = two_years, OF is_clean_two_years]
    by simp
qed

lemma two_years_series:
  "numeric_series 2 two_years = [Some 2018, Some 2015, Some 2018]"
  "numeric_series 0 two_years = [Some 250000, Some 100000, Some 300000]"
  by (simp_all add: numeric_series_def column_values_def cell_at_def two_years_def)

lemma two_years_indices:
  "col_index ''year'' (columns two_years) = Some 2"
  "col_index ''price'' (columns two_years) = Some 0"
  by (simp_all add: two_years_columns)

lemma two_years_year_chart:
  "year_block two_years = (Some (LineCount [(2015, 1), (2018, 2)]), two_years)"
  by (simp add: year_block_def two_years_indices two_years_series value_counts_def)

lemma two_years_avg_chart:
  "avg_price_block two_years = (Some (LineMean [(2015, Some 1), (2018, Some (11 / 4))]), two_years)"
  by (simp add: avg_price_block_def two_years_indices two_years_series groupby_mean_def mean_def)

theorem C9_witness:
  "wf_frame two_years
   \<and> clean latin1_isspace latin1_lower parse_decimal two_years =
       Inr (two_years, \<lparr>duplicates_removed = 0, missing_count = 0, invalid_rows_removed = 0\<rparr>)
   \<and> numeric_series 2 two_years = [Some 2018, Some 2015, Some 2018]
   \<and> year_block two_years = (Some (LineCount [(2015, 1), (2018, 2)]), two_years)
   \<and> avg_price_block two_years =
       (Some (LineMean [(2015, Some 1), (2018, Some (11 / 4))]), two_years)
   \<and> (\<exists>jy jp ys.
           col_index ''year'' (columns two_years) = Some jy
           \<and> col_index ''price'' (columns two_years) = Some jp
           \<and> column_values jy two_years = map Num ys
           \<and> (\<exists>pts. year_block two_years = (Some (LineCount pts), two_years)
                 \<and> sorted (map fst pts) \<and> distinct (map fst pts) \<and> set (map fst pts) = set ys
                 \<and> (\<forall>p \<in> set pts. snd p = count_list ys (fst p)))
           \<and> (\<exists>pts. avg_price_block two_years = (Some (LineMean pts), two_years)
                 \<and> sorted (map fst pts) \<and> distinct (map fst pts) \<and> set (map fst pts) = set ys
                 \<and> (\<forall>p \<in> set pts. snd p =
                       map_option (\<lambda>m. m / 100000)
                         (mean (present (map snd (filter (\<lambda>kv. fst kv = Some (fst p))
                            (zip (numeric_series jy two_years) (numeric_series jp two_years))))))))
           \<and> (\<forall>t'. schema t' = schema two_years \<and> mset (rows t') = mset (rows two_years) \<longrightarrow>
                 fst (year_block t') = fst (year_block two_years)
                 \<and> fst (avg_price_block t') = fst (avg_price_block two_years)))"
proof -
  note c9 = C9_year_charts_ascending [where isspace = latin1_isspace and lower = latin1_lower
      and parse = parse_decimal, OF wf_two_years two_years_run]
  show ?thesis
    using wf_two_years two_years_run [where isspace = latin1_isspace and lower = latin1_lower and parse = parse_decimal] two_years_series(1)
      two_years_year_chart two_years_avg_chart c9
    by (intro conjI)
qed

end
